theory Spec2Isabelle
  imports Main
begin

section \<open>Python string primitives used by the four drivers\<close>

text \<open>
  Text is a \<open>string\<close>: a list of characters, each one a code point below 256.
  \<open>isspace\<close> is Python's \<open>str.isspace\<close> on these code points; it is also the
  class \<open>\s\<close> of the \<open>re\<close> module on \<open>str\<close> patterns. \<open>is_alnum\<close> is
  the class \<open>[a-zA-Z0-9]\<close>.
\<close>

definition newline :: char where
  "newline = CHR 0x0A"

definition carriage_return :: char where
  "carriage_return = CHR 0x0D"

definition backslash :: char where
  "backslash = CHR 0x5C"

definition backtick :: char where
  "backtick = CHR 0x60"

definition isspace :: "char \<Rightarrow> bool" where
  "isspace c = (c \<in> set [CHR 0x09, CHR 0x0A, CHR 0x0B, CHR 0x0C, CHR 0x0D,
                         CHR 0x1C, CHR 0x1D, CHR 0x1E, CHR 0x1F, CHR 0x20,
                         CHR 0x85, CHR 0xA0])"

definition is_alnum :: "char \<Rightarrow> bool" where
  "is_alnum c =
     (let n = (of_char c :: nat)
      in (97 \<le> n \<and> n \<le> 122) \<or> (65 \<le> n \<and> n \<le> 90) \<or> (48 \<le> n \<and> n \<le> 57))"

text \<open>\<open>re.search(r'[a-zA-Z0-9]', text)\<close> as a truth value.\<close>

definition has_alnum :: "string \<Rightarrow> bool" where
  "has_alnum s = list_ex is_alnum s"

text \<open>\<open>s.lstrip()\<close>, \<open>s.rstrip()\<close>, \<open>s.strip()\<close>.\<close>

definition lstrip :: "string \<Rightarrow> string" where
  "lstrip s = dropWhile isspace s"

definition rstrip :: "string \<Rightarrow> string" where
  "rstrip s = rev (dropWhile isspace (rev s))"

definition strip :: "string \<Rightarrow> string" where
  "strip s = lstrip (rstrip s)"

text \<open>
  \<open>s.lstrip(chars)\<close> and \<open>s.rstrip(chars)\<close>: the argument is a set of characters,
  not a prefix, so \<open>lstrip('//')\<close> removes every leading slash.
\<close>

definition lstrip_chars :: "string \<Rightarrow> string \<Rightarrow> string" where
  "lstrip_chars chars s = dropWhile (\<lambda>c. c \<in> set chars) s"

definition rstrip_chars :: "string \<Rightarrow> string \<Rightarrow> string" where
  "rstrip_chars chars s = rev (dropWhile (\<lambda>c. c \<in> set chars) (rev s))"

definition startswith :: "string \<Rightarrow> string \<Rightarrow> bool" where
  "startswith s p = (take (length p) s = p)"

section \<open>The translation service\<close>

text \<open>
  \<open>translator.translate(text, dest=TARGET_LANG)\<close> either returns a result whose
  \<open>.text\<close> is the translation or raises; the raise is the value \<open>Inl ServiceError\<close>.
  \<open>KeyError\<close> is the exception of a dictionary read at a key it does not hold.
\<close>

datatype error = ServiceError | KeyError

type_synonym translator = "string \<Rightarrow> error + string"

section \<open>The C-family driver (honyaku\_cpp.py)\<close>

text \<open>
  \<open>translate_with_semaphore\<close>: what one task returns once it holds the semaphore.
  Every exception inside the \<open>try\<close> block returns the original text.
\<close>

definition cpp_translate_with_semaphore :: "translator \<Rightarrow> string \<Rightarrow> string" where
  "cpp_translate_with_semaphore tr text =
     (if \<not> has_alnum text then text
      else
        let clean_text =
              strip (rstrip_chars ''*/'' (lstrip_chars ''/*'' (lstrip_chars ''//'' (strip text))))
        in if clean_text = [] then text
           else
             (case tr clean_text of
                Inl e \<Rightarrow> text
              | Inr translated \<Rightarrow>
                  let indent = take (length text - length (lstrip text)) text
                  in if startswith (lstrip text) ''//'' then indent @ ''// '' @ translated
                     else if startswith (lstrip text) ''/*''
                       then indent @ ''/* '' @ translated @ '' */''
                     else translated))"

text \<open>
  The pattern \<open>(//.*)|(/\*[\s\S]*?\*/)\<close>. \<open>find_close s\<close> is the length of the
  shortest prefix of \<open>s\<close> that ends with \<open>*/\<close>; \<open>comment_match s\<close> is the length of
  the match that starts at the head of \<open>s\<close>, if there is one: a line comment runs up to
  the next newline (\<open>.\<close> matches everything else), a block comment up to the first
  \<open>*/\<close> after its opening.
\<close>

fun find_close :: "string \<Rightarrow> nat option" where
  "find_close (a # b # cs) =
     (if a = CHR ''*'' \<and> b = CHR ''/'' then Some 2
      else map_option Suc (find_close (b # cs)))"
| "find_close _ = None"

definition comment_match :: "string \<Rightarrow> nat option" where
  "comment_match s =
     (if startswith s ''//''
        then Some (2 + length (takeWhile (\<lambda>c. c \<noteq> newline) (drop 2 s)))
      else if startswith s ''/*''
        then map_option (\<lambda>n. 2 + n) (find_close (drop 2 s))
      else None)"

text \<open>
  The scan of \<open>finditer\<close> and \<open>sub\<close> for a pattern given by its matcher
  \<open>m\<close> (the length of the match that starts at the head of the text, if there is
  one): from left to right, a match is taken where one starts and the scan goes on behind
  it; elsewhere one character is passed over. An empty match is recorded and the scan
  moves one character on.
\<close>

datatype token = Plain char | Match string

fun re_scan :: "(string \<Rightarrow> nat option) \<Rightarrow> string \<Rightarrow> token list" where
  "re_scan m [] = (case m [] of Some 0 \<Rightarrow> [Match []] | _ \<Rightarrow> [])"
| "re_scan m (c # cs) =
     (case m (c # cs) of
        None \<Rightarrow> Plain c # re_scan m cs
      | Some 0 \<Rightarrow> Match [] # Plain c # re_scan m cs
      | Some (Suc n) \<Rightarrow> Match (take (Suc n) (c # cs)) # re_scan m (drop n cs))"

text \<open>\<open>[match.group(0) for match in comment_pattern.finditer(content)]\<close>\<close>

fun matches :: "token list \<Rightarrow> string list" where
  "matches [] = []"
| "matches (Plain c # ts) = matches ts"
| "matches (Match s # ts) = s # matches ts"

text \<open>\<open>comment_pattern.sub(f, content)\<close>, on the scanned content.\<close>

fun sub_tokens :: "(string \<Rightarrow> string) \<Rightarrow> token list \<Rightarrow> string" where
  "sub_tokens f [] = []"
| "sub_tokens f (Plain c # ts) = c # sub_tokens f ts"
| "sub_tokens f (Match s # ts) = f s @ sub_tokens f ts"

text \<open>
  \<open>dict(zip(keys, values))\<close>: the pairs are stored from left to right, so a key that
  occurs twice keeps the value of its last occurrence; \<open>zip\<close> stops at the shorter list.
\<close>

definition dict_zip :: "'k list \<Rightarrow> 'v list \<Rightarrow> ('k \<rightharpoonup> 'v)" where
  "dict_zip ks vs = map_of (rev (zip ks vs))"

text \<open>\<open>translation_map.get(original_comment, original_comment)\<close>\<close>

definition replace_comment :: "(string \<rightharpoonup> string) \<Rightarrow> string \<Rightarrow> string" where
  "replace_comment translation_map original_comment =
     (case translation_map original_comment of
        Some t \<Rightarrow> t
      | None \<Rightarrow> original_comment)"

text \<open>
  The second half of \<open>process_file\<close>: the content rebuilt from the results that
  \<open>asyncio.gather\<close> returned, one per comment, in the order of the comments.
\<close>

definition cpp_reassemble :: "string \<Rightarrow> string list \<Rightarrow> string" where
  "cpp_reassemble content translated_comments =
     (let comments = matches (re_scan comment_match content);
          translation_map = dict_zip comments translated_comments
      in sub_tokens (replace_comment translation_map) (re_scan comment_match content))"

definition cpp_process_file :: "translator \<Rightarrow> string \<Rightarrow> string" where
  "cpp_process_file tr content =
     (let comments = matches (re_scan comment_match content)
      in if comments = [] then content
         else cpp_reassemble content (map (cpp_translate_with_semaphore tr) comments))"

section \<open>The typesetting driver (honyaku\_tex.py)\<close>

definition tex_translate_with_semaphore :: "translator \<Rightarrow> string \<Rightarrow> string" where
  "tex_translate_with_semaphore tr text =
     (if \<not> has_alnum text then text
      else
        let clean_text = strip text
        in if clean_text = [] then text
           else
             (case tr clean_text of
                Inl e \<Rightarrow> text
              | Inr translated \<Rightarrow>
                  let indent = take (length text - length (lstrip text)) text
                  in indent @ translated @ [newline]))"

text \<open>
  \<open>f.readlines()\<close> on the decoded text: the text is cut behind every newline. (A file
  opened in text mode has its line ends already translated to the newline character.)
\<close>

fun readlines :: "string \<Rightarrow> string list" where
  "readlines [] = []"
| "readlines (c # cs) =
     (if c = newline then [c] # readlines cs
      else (case readlines cs of
              [] \<Rightarrow> [[c]]
            | l # ls \<Rightarrow> (c # l) # ls))"

text \<open>
  \<open>item_pattern = re.compile(r'^\s*\\item\s*')\<close>. \<open>item_match line\<close> is
  \<open>item_pattern.match(line).group(0)\<close>, or \<open>None\<close> where the pattern does not match;
  \<open>item_sub line\<close> is \<open>item_pattern.sub('', line)\<close>: the pattern is anchored, so
  only a match at the start of the line is removed.
\<close>

definition item_command :: string where
  "item_command = backslash # ''item''"

definition item_match :: "string \<Rightarrow> string option" where
  "item_match line =
     (let r = dropWhile isspace line
      in if startswith r item_command
         then Some (takeWhile isspace line @ item_command
                    @ takeWhile isspace (drop (length item_command) r))
         else None)"

definition item_sub :: "string \<Rightarrow> string" where
  "item_sub line =
     (case item_match line of
        None \<Rightarrow> line
      | Some m \<Rightarrow> drop (length m) line)"

text \<open>\<open>pattern.search(line)\<close> for a pattern that is a literal text \<open>p\<close>.\<close>

fun contains :: "string \<Rightarrow> string \<Rightarrow> bool" where
  "contains [] p = (p = [])"
| "contains (c # cs) p = (startswith (c # cs) p \<or> contains cs p)"

definition begin_pattern :: string where
  "begin_pattern = [backslash, CHR ''{'']"

definition end_pattern :: string where
  "end_pattern = [backslash, CHR ''}'']"

text \<open>The first loop of \<open>process_file\<close>: its three variables and one iteration.\<close>

record tex_scan =
  tex_in_code_block :: bool
  tex_lines_to_translate :: "string list"
  tex_line_indices_to_translate :: "nat list"

definition tex_scan_line :: "nat \<times> string \<Rightarrow> tex_scan \<Rightarrow> tex_scan" where
  "tex_scan_line il st =
     (let i = fst il; line = snd il
      in if item_match line \<noteq> None then
           (let text_part = item_sub line
            in if strip text_part \<noteq> [] then
                 st\<lparr>tex_lines_to_translate := tex_lines_to_translate st @ [text_part],
                    tex_line_indices_to_translate := tex_line_indices_to_translate st @ [i]\<rparr>
               else st)
         else if contains line begin_pattern then st\<lparr>tex_in_code_block := True\<rparr>
         else if contains line end_pattern then st\<lparr>tex_in_code_block := False\<rparr>
         else if tex_in_code_block st \<or> backslash \<in> set line then st
         else if strip line = [] then st
         else
           st\<lparr>tex_lines_to_translate := tex_lines_to_translate st @ [line],
              tex_line_indices_to_translate := tex_line_indices_to_translate st @ [i]\<rparr>)"

definition tex_scan_init :: tex_scan where
  "tex_scan_init =
     \<lparr>tex_in_code_block = False, tex_lines_to_translate = [],
      tex_line_indices_to_translate = []\<rparr>"

definition tex_scan_lines :: "string list \<Rightarrow> tex_scan" where
  "tex_scan_lines lines = fold tex_scan_line (enumerate 0 lines) tex_scan_init"

text \<open>
  The second loop: the results of \<open>asyncio.gather\<close>, one per queued text and in the
  order of the queue, are written into a copy of the lines.
\<close>

definition tex_put :: "string list \<Rightarrow> string list \<Rightarrow> nat \<times> nat \<Rightarrow> string list \<Rightarrow> string list" where
  "tex_put lines translated_texts ii translated_lines =
     (let i = fst ii; original_line_index = snd ii;
          original_line = lines ! original_line_index;
          translated_text = translated_texts ! i
      in case item_match original_line of
           Some item_command_part \<Rightarrow>
             translated_lines[original_line_index := item_command_part @ lstrip translated_text]
         | None \<Rightarrow> translated_lines[original_line_index := translated_text])"

definition tex_reassemble :: "string list \<Rightarrow> nat list \<Rightarrow> string list \<Rightarrow> string list" where
  "tex_reassemble lines line_indices_to_translate translated_texts =
     fold (tex_put lines translated_texts) (enumerate 0 line_indices_to_translate) lines"

text \<open>
  \<open>process_file\<close>: the lines that are joined into \<open>translated_content\<close>, and
  the text written.
\<close>

definition tex_translated_lines :: "translator \<Rightarrow> string list \<Rightarrow> string list" where
  "tex_translated_lines tr lines =
     (let st = tex_scan_lines lines
      in if tex_lines_to_translate st = [] then lines
         else
           tex_reassemble lines (tex_line_indices_to_translate st)
             (map (tex_translate_with_semaphore tr) (tex_lines_to_translate st)))"

definition tex_process_file :: "translator \<Rightarrow> string \<Rightarrow> string" where
  "tex_process_file tr content = concat (tex_translated_lines tr (readlines content))"

section \<open>The lightweight-markup driver (honyaku\_md.py)\<close>

definition CODE_BLOCK_MARKER :: string where
  "CODE_BLOCK_MARKER = replicate 3 backtick"

text \<open>
  The pattern \<open>`[^`]*?`\<close>: a match starts at a backtick and ends at the next one.
\<close>

definition inline_code_match :: "string \<Rightarrow> nat option" where
  "inline_code_match s =
     (case s of
        [] \<Rightarrow> None
      | c # cs \<Rightarrow>
          if c = backtick \<and> backtick \<in> set cs
          then Some (length (takeWhile (\<lambda>x. x \<noteq> backtick) cs) + 2)
          else None)"

text \<open>The decimal digits of a number, as an f-string prints them.\<close>

fun decimal :: "nat \<Rightarrow> string" where
  "decimal n =
     (if n < 10 then [''0123456789'' ! n]
      else decimal (n div 10) @ [''0123456789'' ! (n mod 10)])"

definition placeholder :: "nat \<Rightarrow> string" where
  "placeholder k = ''__INLINECODE'' @ decimal k @ ''__''"

text \<open>
  \<open>re.sub(r'`[^`]*?`', replace_inline_code, line)\<close>: the callback numbers the
  matches from the size of the dictionary and stores each one under its placeholder.
  \<open>with_placeholders k\<close> is the text returned and \<open>snippets k\<close> the dictionary, in the
  order of insertion, when \<open>k\<close> entries were stored before.
\<close>

fun with_placeholders :: "nat \<Rightarrow> token list \<Rightarrow> string" where
  "with_placeholders k [] = []"
| "with_placeholders k (Plain c # ts) = c # with_placeholders k ts"
| "with_placeholders k (Match s # ts) = placeholder k @ with_placeholders (Suc k) ts"

fun snippets :: "nat \<Rightarrow> token list \<Rightarrow> (string \<times> string) list" where
  "snippets k [] = []"
| "snippets k (Plain c # ts) = snippets k ts"
| "snippets k (Match s # ts) = (placeholder k, s) # snippets (Suc k) ts"

text \<open>
  The pattern \<open>\s*PLACEHOLDER\s*\<close>: white space, the placeholder, white space. The
  placeholder begins with an underscore, so a match takes the whole run of white space
  before it.
\<close>

definition placeholder_match :: "string \<Rightarrow> string \<Rightarrow> nat option" where
  "placeholder_match ph s =
     (let r = dropWhile isspace s
      in if startswith r ph
         then Some (length (takeWhile isspace s) + length ph
                    + length (takeWhile isspace (drop (length ph) r)))
         else None)"

text \<open>
  \<open>re.sub(pattern, original_code, translated_line)\<close> takes its second argument as a
  template. A template without a backslash stands for itself. One with a backslash is
  expanded by the \<open>re\<close> module, which is no part of this repository: \<open>compile_template\<close>
  stands for that expansion, from the matched text to the replacement, and is \<open>None\<close>
  where the module raises \<open>re.error\<close>.
\<close>

definition re_template ::
  "(string \<Rightarrow> (string \<Rightarrow> string) option) \<Rightarrow> string \<Rightarrow> (string \<Rightarrow> string) option" where
  "re_template compile_template repl =
     (if backslash \<in> set repl then compile_template repl else Some (\<lambda>m. repl))"

text \<open>
  The loop over \<open>inline_code_snippets.items()\<close>; \<open>None\<close> is the exception of a
  template that does not compile.
\<close>

fun restore ::
  "(string \<Rightarrow> (string \<Rightarrow> string) option) \<Rightarrow> (string \<times> string) list \<Rightarrow> string
   \<Rightarrow> string option" where
  "restore compile_template [] translated_line = Some translated_line"
| "restore compile_template ((ph, original_code) # rest) translated_line =
     (case re_template compile_template original_code of
        None \<Rightarrow> None
      | Some f \<Rightarrow>
          restore compile_template rest
            (sub_tokens f (re_scan (placeholder_match ph) translated_line)))"

text \<open>
  \<open>translate_line\<close>: what one task returns once it holds the semaphore. Every
  exception inside the \<open>try\<close> block returns the line as it was.
\<close>

definition translate_line ::
  "(string \<Rightarrow> (string \<Rightarrow> string) option) \<Rightarrow> translator \<Rightarrow> string \<Rightarrow> string" where
  "translate_line compile_template tr line =
     (if \<not> has_alnum line then line
      else
        let toks = re_scan inline_code_match line;
            inline_code_snippets = snippets 0 toks;
            line_with_placeholders = with_placeholders 0 toks
        in if \<not> has_alnum line_with_placeholders then line
           else
             (case tr line_with_placeholders of
                Inl e \<Rightarrow> line
              | Inr translated_line \<Rightarrow>
                  (case restore compile_template inline_code_snippets translated_line of
                     None \<Rightarrow> line
                   | Some restored \<Rightarrow> restored)))"

text \<open>
  The first loop of \<open>process_file\<close>. \<open>md_info\<close> is \<open>lines_to_translate_info\<close>
  (index and original line) and \<open>md_tasks\<close> holds the argument of each
  \<open>translate_line\<close> task.
\<close>

record md_scan =
  md_in_code_block :: bool
  md_info :: "(nat \<times> string) list"
  md_tasks :: "string list"

definition line_ends :: string where
  "line_ends = [newline, carriage_return]"

text \<open>\<open>line.strip().startswith(CODE_BLOCK_MARKER)\<close>\<close>

definition is_fence :: "string \<Rightarrow> bool" where
  "is_fence line = startswith (strip line) CODE_BLOCK_MARKER"

definition md_scan_line :: "nat \<times> string \<Rightarrow> md_scan \<Rightarrow> md_scan" where
  "md_scan_line il st =
     (let i = fst il; line = snd il
      in if is_fence line then
           st\<lparr>md_in_code_block := \<not> md_in_code_block st\<rparr>
         else if md_in_code_block st then st
         else
           (let original_line_content = rstrip_chars line_ends line
            in if original_line_content = [] then st
               else
                 st\<lparr>md_info := md_info st @ [(i, line)],
                    md_tasks := md_tasks st @ [original_line_content]\<rparr>))"

definition md_scan_init :: md_scan where
  "md_scan_init = \<lparr>md_in_code_block = False, md_info = [], md_tasks = []\<rparr>"

definition md_scan_lines :: "string list \<Rightarrow> md_scan" where
  "md_scan_lines lines = fold md_scan_line (enumerate 0 lines) md_scan_init"

text \<open>
  The second loop: the results of \<open>asyncio.gather\<close>, one per task and in the order
  of the tasks, are written back into the lines.
\<close>

definition md_put :: "(nat \<times> string) list \<Rightarrow> nat \<times> string \<Rightarrow> string list \<Rightarrow> string list" where
  "md_put info it lines =
     (let i = fst it; translated_content = snd it;
          index = fst (info ! i); original_line = snd (info ! i);
          original_ending = drop (length (rstrip_chars line_ends original_line)) original_line
      in lines[index := translated_content @ original_ending])"

definition md_reassemble :: "string list \<Rightarrow> (nat \<times> string) list \<Rightarrow> string list \<Rightarrow> string list" where
  "md_reassemble lines info translated_results =
     fold (md_put info) (enumerate 0 translated_results) lines"

text \<open>
  \<open>process_file\<close>: the lines as they are when the loops are done, and the text
  that \<open>f.writelines(lines)\<close> writes.
\<close>

definition md_translated_lines ::
  "(string \<Rightarrow> (string \<Rightarrow> string) option) \<Rightarrow> translator \<Rightarrow> string list \<Rightarrow> string list" where
  "md_translated_lines compile_template tr lines =
     (let st = md_scan_lines lines
      in if md_tasks st = [] then lines
         else
           md_reassemble lines (md_info st)
             (map (translate_line compile_template tr) (md_tasks st)))"

definition md_process_file ::
  "(string \<Rightarrow> (string \<Rightarrow> string) option) \<Rightarrow> translator \<Rightarrow> string \<Rightarrow> string" where
  "md_process_file compile_template tr content =
     concat (md_translated_lines compile_template tr (readlines content))"

section \<open>The tree-structured markup driver (honyaku.py)\<close>

text \<open>
  The parsed document: an element (\<open>Tag\<close>) has a name, attributes and children, a
  text node has its text. A text node is an object of the class \<open>NavigableString\<close>
  itself, or of one of its subclasses (\<open>SpecialString\<close>, with the subclass): a
  comment, a declaration and the like, and in newer versions of the library the text
  inside a \<open>script\<close>, \<open>style\<close> or \<open>template\<close> element. The text of a special
  string is what \<open>str\<close> gives (for a comment, what stands between the comment marks).
  The \<open>BeautifulSoup\<close> object is the root element, of name \<open>[document]\<close>.
\<close>

datatype string_class =
    CData | Comment | Declaration | Doctype | ProcessingInstruction
  | Script | Stylesheet | TemplateString

datatype node =
    Tag string "(string \<times> string) list" "node list"
  | NavigableString string
  | SpecialString string_class string

definition EXCLUDE_TAGS :: "string list" where
  "EXCLUDE_TAGS =
     [''a'', ''code'', ''script'', ''style'', ''head'', ''title'', ''meta'', ''[document]'']"

definition SPECIAL_HANDLING_TAGS :: "string list" where
  "SPECIAL_HANDLING_TAGS = [''pre'']"

text \<open>
  \<open>translate_with_semaphore\<close>: what one task returns once it holds the semaphore;
  \<open>None\<close> after an exception.
\<close>

definition html_translate_with_semaphore :: "translator \<Rightarrow> string \<Rightarrow> string option" where
  "html_translate_with_semaphore tr text =
     (case tr text of
        Inl e \<Rightarrow> None
      | Inr translated \<Rightarrow> Some translated)"

text \<open>
  \<open>translate_text_list\<close>: a task for every text that is not blank, and of the
  gathered results those that are not \<open>None\<close>.
\<close>

fun not_none :: "'a option list \<Rightarrow> 'a list" where
  "not_none [] = []"
| "not_none (None # rs) = not_none rs"
| "not_none (Some r # rs) = r # not_none rs"

definition translate_text_list :: "translator \<Rightarrow> string list \<Rightarrow> string list" where
  "translate_text_list tr texts =
     not_none (map (html_translate_with_semaphore tr) (filter (\<lambda>text. strip text \<noteq> []) texts))"

text \<open>\<open>text.split('\n')\<close> and \<open>'\n'.join(lines)\<close>.\<close>

fun split_lines :: "string \<Rightarrow> string list" where
  "split_lines [] = [[]]"
| "split_lines (c # cs) =
     (if c = newline then [] # split_lines cs
      else (case split_lines cs of
              [] \<Rightarrow> [[c]]
            | l # ls \<Rightarrow> (c # l) # ls))"

fun join_lines :: "string list \<Rightarrow> string" where
  "join_lines [] = []"
| "join_lines [l] = l"
| "join_lines (l # ls) = l @ newline # join_lines ls"

text \<open>
  \<open>s.find(p)\<close> is the index of the first occurrence of \<open>p\<close> in \<open>s\<close>, or \<open>-1\<close>;
  \<open>s[:s.find(p)]\<close> is then the text before the occurrence, or \<open>s\<close> without its
  last character.
\<close>

fun find_from :: "nat \<Rightarrow> string \<Rightarrow> string \<Rightarrow> nat option" where
  "find_from k [] p = (if p = [] then Some k else None)"
| "find_from k (c # cs) p =
     (if startswith (c # cs) p then Some k else find_from (Suc k) cs p)"

definition slice_to_find :: "string \<Rightarrow> string \<Rightarrow> string" where
  "slice_to_find s p =
     (case find_from 0 s p of
        Some k \<Rightarrow> take k s
      | None \<Rightarrow> butlast s)"

text \<open>
  The loop over the lines of a special element: the comment texts to translate, and the
  dictionary from a comment text to the index of its line (a later line with the same
  text takes the entry over).
\<close>

record pre_scan =
  pre_lines_to_translate :: "string list"
  pre_translation_map :: "string \<rightharpoonup> nat"

definition pre_scan_line :: "nat \<times> string \<Rightarrow> pre_scan \<Rightarrow> pre_scan" where
  "pre_scan_line il st =
     (let i = fst il; line = snd il;
          stripped_line = strip line
      in if startswith stripped_line ''//'' then
           (let comment_text = strip (lstrip_chars ''//'' stripped_line)
            in if comment_text \<noteq> [] then
                 st\<lparr>pre_lines_to_translate := pre_lines_to_translate st @ [comment_text],
                    pre_translation_map := (pre_translation_map st)(comment_text \<mapsto> i)\<rparr>
               else st)
         else st)"

definition pre_scan_init :: pre_scan where
  "pre_scan_init = \<lparr>pre_lines_to_translate = [], pre_translation_map = Map.empty\<rparr>"

definition pre_scan_lines :: "string list \<Rightarrow> pre_scan" where
  "pre_scan_lines lines = fold pre_scan_line (enumerate 0 lines) pre_scan_init"

text \<open>
  The loop over \<open>zip(original_texts_for_mapping, translated_comments)\<close>. No entry of
  \<open>translated_comments\<close> is \<open>None\<close> (\<open>translate_text_list\<close> has dropped them), so
  the loop's \<open>continue\<close> is never taken.
\<close>

fun pre_put :: "(string \<rightharpoonup> nat) \<Rightarrow> (string \<times> string) list \<Rightarrow> string list
                \<Rightarrow> error + string list" where
  "pre_put translation_map [] lines = Inr lines"
| "pre_put translation_map ((original, translated) # ps) lines =
     (case translation_map original of
        None \<Rightarrow> Inl KeyError
      | Some line_index \<Rightarrow>
          (let indent = slice_to_find (lines ! line_index) ''//''
           in pre_put translation_map ps (lines[line_index := indent @ ''// '' @ translated])))"

text \<open>
  The body of the loop over the special elements, from the element's text
  (\<open>tag.get_text()\<close>) to the text it is given (\<open>tag.string = new_content\<close>).
\<close>

definition process_special_text :: "translator \<Rightarrow> string \<Rightarrow> error + string" where
  "process_special_text tr text =
     (let lines = split_lines text;
          st = pre_scan_lines lines;
          lines_to_translate = pre_lines_to_translate st
      in if lines_to_translate \<noteq> [] then
           (let translated_comments = translate_text_list tr lines_to_translate;
                original_texts_for_mapping = filter (\<lambda>text. strip text \<noteq> []) lines_to_translate
            in case pre_put (pre_translation_map st)
                      (zip original_texts_for_mapping translated_comments) lines of
                 Inl e \<Rightarrow> Inl e
               | Inr lines' \<Rightarrow> Inr (join_lines lines'))
         else Inr (join_lines lines))"

text \<open>
  \<open>tag.get_text()\<close>: the texts of the text nodes below the element, in order, of
  those whose class is \<open>NavigableString\<close> itself or \<open>CData\<close>; comments and the
  other special strings are left out.
\<close>

fun get_text :: "node \<Rightarrow> string" where
  "get_text (NavigableString s) = s"
| "get_text (SpecialString cls s) = (if cls = CData then s else [])"
| "get_text (Tag name attrs children) = concat (map get_text children)"

text \<open>The first exception of a list of results, or all their values.\<close>

fun those_inr :: "('e + 'a) list \<Rightarrow> 'e + 'a list" where
  "those_inr [] = Inr []"
| "those_inr (Inl e # rs) = Inl e"
| "those_inr (Inr x # rs) =
     (case those_inr rs of
        Inl e \<Rightarrow> Inl e
      | Inr xs \<Rightarrow> Inr (x # xs))"

text \<open>
  The loop over \<open>soup.find_all(SPECIAL_HANDLING_TAGS)\<close>, as it shows in the tree: a
  special element keeps its name and attributes and gets one text node for its
  children; a special element inside another one is cut off the tree with the old
  children of the outer one.
\<close>

fun process_special :: "translator \<Rightarrow> node \<Rightarrow> error + node" where
  "process_special tr (NavigableString s) = Inr (NavigableString s)"
| "process_special tr (SpecialString cls s) = Inr (SpecialString cls s)"
| "process_special tr (Tag name attrs children) =
     (if name \<in> set SPECIAL_HANDLING_TAGS then
        (case process_special_text tr (get_text (Tag name attrs children)) of
           Inl e \<Rightarrow> Inl e
         | Inr new_content \<Rightarrow> Inr (Tag name attrs [NavigableString new_content]))
      else
        (case those_inr (map (process_special tr) children) of
           Inl e \<Rightarrow> Inl e
         | Inr children' \<Rightarrow> Inr (Tag name attrs children')))"

text \<open>
  \<open>translate_element\<close>, with the name of the element's parent
  (\<open>element.parent.name\<close>) as an argument. \<open>if translated_text\<close> holds for a result
  that is neither \<open>None\<close> nor the empty text. Every text node is an instance of
  \<open>NavigableString\<close>, a special string too; \<open>replace_with\<close> puts a node of the
  class \<open>NavigableString\<close> itself in its place.
\<close>

fun translate_element :: "translator \<Rightarrow> string \<Rightarrow> node \<Rightarrow> node" where
  "translate_element tr parent_name (Tag name attrs children) =
     (if name \<in> set EXCLUDE_TAGS \<or> name \<in> set SPECIAL_HANDLING_TAGS
      then Tag name attrs children
      else Tag name attrs (map (translate_element tr name) children))"
| "translate_element tr parent_name (NavigableString s) =
     (if strip s \<noteq> [] then
        (if parent_name \<notin> set EXCLUDE_TAGS \<and> parent_name \<notin> set SPECIAL_HANDLING_TAGS then
           (case html_translate_with_semaphore tr s of
              None \<Rightarrow> NavigableString s
            | Some translated_text \<Rightarrow>
                if translated_text \<noteq> [] then NavigableString translated_text
                else NavigableString s)
         else NavigableString s)
      else NavigableString s)"
| "translate_element tr parent_name (SpecialString cls s) =
     (if strip s \<noteq> [] then
        (if parent_name \<notin> set EXCLUDE_TAGS \<and> parent_name \<notin> set SPECIAL_HANDLING_TAGS then
           (case html_translate_with_semaphore tr s of
              None \<Rightarrow> SpecialString cls s
            | Some translated_text \<Rightarrow>
                if translated_text \<noteq> [] then NavigableString translated_text
                else SpecialString cls s)
         else SpecialString cls s)
      else SpecialString cls s)"

text \<open>
  \<open>soup.body\<close> is the first element named \<open>body\<close> below the root, in document
  order. \<open>on_first nm f parent_name ns\<close> applies \<open>f\<close> to the first element named
  \<open>nm\<close> in the forest \<open>ns\<close> below an element named \<open>parent_name\<close>; \<open>None\<close> where there
  is no such element.
\<close>

fun on_first ::
  "string \<Rightarrow> (string \<Rightarrow> node \<Rightarrow> node) \<Rightarrow> string \<Rightarrow> node list \<Rightarrow> node list option" where
  "on_first nm f parent_name [] = None"
| "on_first nm f parent_name (NavigableString s # ns) =
     map_option (\<lambda>ns'. NavigableString s # ns') (on_first nm f parent_name ns)"
| "on_first nm f parent_name (SpecialString cls s # ns) =
     map_option (\<lambda>ns'. SpecialString cls s # ns') (on_first nm f parent_name ns)"
| "on_first nm f parent_name (Tag name attrs children # ns) =
     (if name = nm then Some (f parent_name (Tag name attrs children) # ns)
      else
        (case on_first nm f name children of
           Some children' \<Rightarrow> Some (Tag name attrs children' # ns)
         | None \<Rightarrow>
             map_option (\<lambda>ns'. Tag name attrs children # ns') (on_first nm f parent_name ns)))"

text \<open>
  \<open>process_file\<close>, from the parsed document to the tree that is written out: the
  special elements first, then the walk from the body, if there is one.
\<close>

definition html_process_file :: "translator \<Rightarrow> node \<Rightarrow> error + node" where
  "html_process_file tr soup =
     (case process_special tr soup of
        Inl e \<Rightarrow> Inl e
      | Inr (NavigableString s) \<Rightarrow> Inr (NavigableString s)
      | Inr (SpecialString cls s) \<Rightarrow> Inr (SpecialString cls s)
      | Inr (Tag name attrs children) \<Rightarrow>
          (case on_first ''body'' (translate_element tr) name children of
             None \<Rightarrow> Inr (Tag name attrs children)
           | Some children' \<Rightarrow> Inr (Tag name attrs children')))"

section \<open>The segments of the markup driver\<close>

text \<open>
  \<open>soup.body\<close> itself: the first element named \<open>nm\<close> in the forest \<open>ns\<close>, with the
  name of its parent.
\<close>

fun find_first :: "string \<Rightarrow> string \<Rightarrow> node list \<Rightarrow> (string \<times> node) option" where
  "find_first nm parent_name [] = None"
| "find_first nm parent_name (NavigableString s # ns) = find_first nm parent_name ns"
| "find_first nm parent_name (SpecialString cls s # ns) = find_first nm parent_name ns"
| "find_first nm parent_name (Tag name attrs children # ns) =
     (if name = nm then Some (parent_name, Tag name attrs children)
      else
        (case find_first nm name children of
           Some found \<Rightarrow> Some found
         | None \<Rightarrow> find_first nm parent_name ns))"

text \<open>
  The texts that \<open>translate_element\<close> hands to \<open>translate_with_semaphore\<close>, in the
  order of the walk.
\<close>

fun walk_segments :: "string \<Rightarrow> node \<Rightarrow> string list" where
  "walk_segments parent_name (Tag name attrs children) =
     (if name \<in> set EXCLUDE_TAGS \<or> name \<in> set SPECIAL_HANDLING_TAGS then []
      else concat (map (walk_segments name) children))"
| "walk_segments parent_name (NavigableString s) =
     (if strip s \<noteq> []
         \<and> parent_name \<notin> set EXCLUDE_TAGS \<and> parent_name \<notin> set SPECIAL_HANDLING_TAGS
      then [s] else [])"
| "walk_segments parent_name (SpecialString cls s) =
     (if strip s \<noteq> []
         \<and> parent_name \<notin> set EXCLUDE_TAGS \<and> parent_name \<notin> set SPECIAL_HANDLING_TAGS
      then [s] else [])"

text \<open>
  The comment texts that the loop over \<open>soup.find_all(SPECIAL_HANDLING_TAGS)\<close> hands
  to \<open>translate_text_list\<close>: those of every special element, one inside another
  included.
\<close>

fun special_segments :: "node \<Rightarrow> string list" where
  "special_segments (NavigableString s) = []"
| "special_segments (SpecialString cls s) = []"
| "special_segments (Tag name attrs children) =
     (if name \<in> set SPECIAL_HANDLING_TAGS
      then pre_lines_to_translate
             (pre_scan_lines (split_lines (get_text (Tag name attrs children))))
      else [])
     @ concat (map special_segments children)"

text \<open>
  All texts that \<open>process_file\<close> sends to the translation service: those of the special
  elements, then those of the walk from the body of the tree as the first loop has left
  it.
\<close>

definition html_segments :: "translator \<Rightarrow> node \<Rightarrow> string list" where
  "html_segments tr soup =
     special_segments soup
     @ (case process_special tr soup of
          Inr (Tag name attrs children) \<Rightarrow>
            (case find_first ''body'' name children of
               Some found \<Rightarrow> walk_segments (fst found) (snd found)
             | None \<Rightarrow> [])
        | _ \<Rightarrow> [])"

text \<open>
  Every special element of the tree holds one text node of the class
  \<open>NavigableString\<close> itself and nothing else.
\<close>

fun special_plain :: "node \<Rightarrow> bool" where
  "special_plain (NavigableString s) = True"
| "special_plain (SpecialString cls s) = True"
| "special_plain (Tag name attrs children) =
     (if name \<in> set SPECIAL_HANDLING_TAGS
      then (case children of [NavigableString s] \<Rightarrow> True | _ \<Rightarrow> False)
      else list_all special_plain children)"

section \<open>Positions in the tree\<close>

text \<open>
  \<open>subtree n p\<close> is the node reached from \<open>n\<close> by the path \<open>p\<close> of child
  positions (\<open>n.contents[i].contents[j]\<close> and so on); \<open>None\<close> where the path
  leaves the tree.
\<close>

fun subtree :: "node \<Rightarrow> nat list \<Rightarrow> node option" where
  "subtree n [] = Some n"
| "subtree (Tag name attrs children) (i # p) =
     (if i < length children then subtree (children ! i) p else None)"
| "subtree (NavigableString s) (i # p) = None"
| "subtree (SpecialString cls s) (i # p) = None"

text \<open>
  The names of the elements passed on that way, from \<open>n\<close> on, without the node at
  the end of the path.
\<close>

fun ancestors :: "node \<Rightarrow> nat list \<Rightarrow> string list" where
  "ancestors (Tag name attrs children) (i # p) =
     name # (if i < length children then ancestors (children ! i) p else [])"
| "ancestors n p = []"

text \<open>The names of the elements of a tree: of its root and of all elements below.\<close>

fun tag_names :: "node \<Rightarrow> string list" where
  "tag_names (Tag name attrs children) = name # concat (map tag_names children)"
| "tag_names (NavigableString s) = []"
| "tag_names (SpecialString cls s) = []"

section \<open>Translators of the scenarios\<close>

text \<open>The mock translator that puts every ASCII letter into upper case.\<close>

definition upper_char :: "char \<Rightarrow> char" where
  "upper_char c =
     (case map_of (zip ''abcdefghijklmnopqrstuvwxyz'' ''ABCDEFGHIJKLMNOPQRSTUVWXYZ'') c of
        Some u \<Rightarrow> u
      | None \<Rightarrow> c)"

definition uppercase :: translator where
  "uppercase text = Inr (map upper_char text)"

text \<open>The mock translator that knows one text.\<close>

definition hello_mock :: translator where
  "hello_mock text = (if text = ''hello world'' then Inr ''ABC'' else Inl ServiceError)"

text \<open>A service that fails for the text \<open>a\<close> and puts every other text into upper case.\<close>

definition fails_on_a :: translator where
  "fails_on_a text = (if text = ''a'' then Inl ServiceError else uppercase text)"

text \<open>
  A stand-in for the template expansion of \<open>re\<close> in scenarios whose inline code holds
  no backslash, where it is never asked.
\<close>

definition no_escapes :: "string \<Rightarrow> (string \<Rightarrow> string) option" where
  "no_escapes repl = None"

section \<open>The semaphore and the tasks\<close>

text \<open>
  Every call of \<open>translate_with_semaphore\<close> (of \<open>translate_line\<close> in the
  lightweight-markup driver) runs as a task of the event loop, and all tasks of a run
  share the one semaphore that \<open>main\<close> creates with \<open>CONCURRENT_LIMIT\<close> slots and
  hands to every \<open>process_file\<close>. A task is \<open>Created\<close> until it passes
  \<open>async with semaphore\<close>, \<open>Holding\<close> inside that block before the call of
  \<open>translator.translate\<close> (while it sleeps and cleans the text), \<open>Calling\<close> while
  that call is outstanding, and \<open>Returned\<close> afterwards.
\<close>

datatype task_state = Created | Holding | Calling | Returned

text \<open>
  The state of a run: the counter of the semaphore (its free slots) and the tasks
  created so far, those of all files together.
\<close>

record dispatcher =
  sem_value :: nat
  tasks :: "task_state list"

definition dispatcher_init :: "nat \<Rightarrow> dispatcher" where
  "dispatcher_init n = \<lparr>sem_value = n, tasks = []\<rparr>"

text \<open>
  The steps of the event loop. \<open>spawn\<close>: a task is created. \<open>fast_return\<close>: a task
  returns before the block (a text without an alphanumeric character). \<open>acquire\<close>:
  a task enters the block, which the semaphore allows only while its counter is
  positive, and the counter goes down. \<open>early_return\<close>: a task leaves the block
  without a call (the cleaned text is empty), and the counter goes up. \<open>call\<close>: the
  task calls the service. \<open>finish\<close>: the call returns or raises, the task leaves the
  block, and the counter goes up.
\<close>

inductive step :: "dispatcher \<Rightarrow> dispatcher \<Rightarrow> bool" where
  spawn: "step d (d\<lparr>tasks := tasks d @ [Created]\<rparr>)"
| fast_return:
    "i < length (tasks d) \<Longrightarrow> tasks d ! i = Created
     \<Longrightarrow> step d (d\<lparr>tasks := (tasks d)[i := Returned]\<rparr>)"
| acquire:
    "i < length (tasks d) \<Longrightarrow> tasks d ! i = Created \<Longrightarrow> 0 < sem_value d
     \<Longrightarrow> step d (d\<lparr>sem_value := sem_value d - 1, tasks := (tasks d)[i := Holding]\<rparr>)"
| early_return:
    "i < length (tasks d) \<Longrightarrow> tasks d ! i = Holding
     \<Longrightarrow> step d (d\<lparr>sem_value := sem_value d + 1, tasks := (tasks d)[i := Returned]\<rparr>)"
| call:
    "i < length (tasks d) \<Longrightarrow> tasks d ! i = Holding
     \<Longrightarrow> step d (d\<lparr>tasks := (tasks d)[i := Calling]\<rparr>)"
| finish:
    "i < length (tasks d) \<Longrightarrow> tasks d ! i = Calling
     \<Longrightarrow> step d (d\<lparr>sem_value := sem_value d + 1, tasks := (tasks d)[i := Returned]\<rparr>)"

text \<open>The states of a run whose semaphore was created with \<open>n\<close> slots.\<close>

inductive reachable :: "nat \<Rightarrow> dispatcher \<Rightarrow> bool" where
  start: "reachable n (dispatcher_init n)"
| next_step: "reachable n d \<Longrightarrow> step d d' \<Longrightarrow> reachable n d'"

text \<open>
  The tasks inside the block, and among them the calls of the service that are
  outstanding.
\<close>

definition in_slot :: "task_state \<Rightarrow> bool" where
  "in_slot t = (t = Holding \<or> t = Calling)"

definition slots_taken :: "dispatcher \<Rightarrow> nat" where
  "slots_taken d = length (filter in_slot (tasks d))"

definition outstanding :: "dispatcher \<Rightarrow> nat" where
  "outstanding d = length (filter (\<lambda>t. t = Calling) (tasks d))"

section \<open>Invariants of the scanning loops\<close>

text \<open>
  What holds of the state of the first loop of the lightweight-markup driver when it
  has read the lines \<open>lines\<close>: the flag says whether the number of fence lines is odd;
  the recorded indices increase; each recorded entry is a line of the input that is no
  fence line and has an even number of fence lines before it; the tasks are the
  recorded lines without their line ends.
\<close>

definition md_inv :: "string list \<Rightarrow> md_scan \<Rightarrow> bool" where
  "md_inv lines st \<longleftrightarrow>
     md_in_code_block st = odd (length (filter is_fence lines))
   \<and> sorted_wrt (<) (map fst (md_info st))
   \<and> list_all (\<lambda>il. fst il < length lines \<and> snd il = lines ! fst il
                     \<and> \<not> is_fence (snd il)
                     \<and> even (length (filter is_fence (take (fst il) lines)))) (md_info st)
   \<and> md_tasks st = map (\<lambda>il. rstrip_chars line_ends (snd il)) (md_info st)"

text \<open>
  What holds of the state of the first loop of the typesetting driver when it has read
  the lines \<open>lines\<close>: the recorded indices increase and are indices of the input, and
  the queued text of an index is the line without its item command, or the whole line
  where there is no item command.
\<close>

definition tex_inv :: "string list \<Rightarrow> tex_scan \<Rightarrow> bool" where
  "tex_inv lines st \<longleftrightarrow>
     sorted_wrt (<) (tex_line_indices_to_translate st)
   \<and> list_all (\<lambda>i. i < length lines) (tex_line_indices_to_translate st)
   \<and> tex_lines_to_translate st
       = map (\<lambda>i. if item_match (lines ! i) \<noteq> None then item_sub (lines ! i) else lines ! i)
             (tex_line_indices_to_translate st)"

section \<open>Gathering the results of the tasks\<close>





section \<open>Evaluation of the string primitives\<close>

lemmas string_prims =
  has_alnum_def is_alnum_def strip_def lstrip_def rstrip_def lstrip_chars_def rstrip_chars_def
  startswith_def isspace_def newline_def backslash_def backtick_def carriage_return_def

section \<open>The C-family comment scenario\<close>

text \<open>
  Claim C6. In the C-family driver, a file that holds the line
  \<open>    // hello world\<close>, processed with a translation service that maps
  \<open>hello world\<close> to \<open>ABC\<close>, yields the line \<open>    // ABC\<close>: the indentation of four
  spaces, the sigil and the space behind the sigil stay around the translated text. The
  line is taken alone, with its line end, and between two lines of code.
\<close>

theorem cpp_comment_scenario:
  assumes "tr ''hello world'' = Inr ''ABC''"
  shows "cpp_process_file tr ''    // hello world'' = ''    // ABC''
       \<and> cpp_process_file tr (''    // hello world'' @ [newline]) = ''    // ABC'' @ [newline]
       \<and> cpp_process_file tr
           (''int x;'' @ [newline] @ ''    // hello world'' @ [newline] @ ''return x;'' @ [newline])
           = ''int x;'' @ [newline] @ ''    // ABC'' @ [newline] @ ''return x;'' @ [newline]"
  using assms
  by (simp add: cpp_process_file_def cpp_reassemble_def comment_match_def
      cpp_translate_with_semaphore_def dict_zip_def replace_comment_def string_prims)

theorem cpp_comment_scenario_witness:
  "hello_mock ''hello world'' = Inr ''ABC''
   \<and> cpp_process_file hello_mock ''    // hello world'' = ''    // ABC''"
  using cpp_comment_scenario [of hello_mock]
  by (simp add: hello_mock_def)

section \<open>The item rule of the typesetting driver\<close>

lemma item_match_prefix:
  assumes "item_match line = Some cmd"
  shows "line = cmd @ drop (length cmd) line"
proof -
  let ?r = "dropWhile isspace line"
  from assms have sw: "startswith ?r item_command"
    and cmd: "cmd = takeWhile isspace line @ item_command
                    @ takeWhile isspace (drop (length item_command) ?r)"
    by (auto simp: item_match_def Let_def split: if_splits)
  from sw have r: "?r = item_command @ drop (length item_command) ?r"
    unfolding startswith_def by (metis append_take_drop_id)
  have "line = takeWhile isspace line @ ?r" by simp
  also have "\<dots> = takeWhile isspace line @ item_command @ drop (length item_command) ?r"
    using r by simp
  also have "\<dots> = takeWhile isspace line @ item_command
      @ takeWhile isspace (drop (length item_command) ?r)
      @ dropWhile isspace (drop (length item_command) ?r)"
    by simp
  finally have "line = cmd @ dropWhile isspace (drop (length item_command) ?r)"
    using cmd by simp
  then show ?thesis by (metis append_eq_conv_conj)
qed

text \<open>
  Claim C7. In the typesetting driver a line that starts with the item command is
  handled by rule 1 alone. The line is the command followed by the remainder
  (\<open>item_sub\<close>); the scan queues the remainder with the index of the line when it is
  not blank and leaves the state alone when it is; the flag of the verbatim block is
  not touched, whatever the line holds and whatever the flag is; the second loop writes
  the command in front of the result without its leading white space. The line
  \<open>\item A note here\<close> under the upper-case translator becomes
  \<open>\item A NOTE HERE\<close>.
\<close>

theorem tex_item_line_rule_one:
  assumes "item_match line = Some cmd"
  shows "line = cmd @ item_sub line
       \<and> tex_in_code_block (tex_scan_line (i, line) st) = tex_in_code_block st
       \<and> (if strip (item_sub line) \<noteq> []
          then tex_lines_to_translate (tex_scan_line (i, line) st)
                 = tex_lines_to_translate st @ [item_sub line]
             \<and> tex_line_indices_to_translate (tex_scan_line (i, line) st)
                 = tex_line_indices_to_translate st @ [i]
          else tex_scan_line (i, line) st = st)
       \<and> tex_put (pre @ line # post) translated_texts (j, length pre) translated_lines
           = translated_lines[length pre := cmd @ lstrip (translated_texts ! j)]
       \<and> tex_process_file uppercase (item_command @ '' A note here'' @ [newline])
           = item_command @ '' A NOTE HERE'' @ [newline]"
proof -
  have a: "line = cmd @ item_sub line"
    using item_match_prefix [OF assms] assms by (simp add: item_sub_def)
  have b: "tex_in_code_block (tex_scan_line (i, line) st) = tex_in_code_block st"
    using assms by (simp add: tex_scan_line_def Let_def)
  have c: "(if strip (item_sub line) \<noteq> []
          then tex_lines_to_translate (tex_scan_line (i, line) st)
                 = tex_lines_to_translate st @ [item_sub line]
             \<and> tex_line_indices_to_translate (tex_scan_line (i, line) st)
                 = tex_line_indices_to_translate st @ [i]
          else tex_scan_line (i, line) st = st)"
    using assms by (simp add: tex_scan_line_def Let_def)
  have d: "tex_put (pre @ line # post) translated_texts (j, length pre) translated_lines
           = translated_lines[length pre := cmd @ lstrip (translated_texts ! j)]"
    using assms by (simp add: tex_put_def Let_def)
  have e: "tex_process_file uppercase (item_command @ '' A note here'' @ [newline])
           = item_command @ '' A NOTE HERE'' @ [newline]"
    by (simp add: tex_process_file_def tex_translated_lines_def tex_scan_lines_def
        tex_scan_line_def tex_scan_init_def item_match_def item_sub_def item_command_def
        tex_reassemble_def tex_put_def tex_translate_with_semaphore_def uppercase_def
        upper_char_def enumerate_eq_zip string_prims)
  from a b c d e show ?thesis by blast
qed

theorem tex_item_line_rule_one_witness:
  "item_match (item_command @ '' A note here'' @ [newline]) = Some (item_command @ '' '')
   \<and> item_sub (item_command @ '' A note here'' @ [newline]) = ''A note here'' @ [newline]
   \<and> tex_lines_to_translate (tex_scan_line (0, item_command @ '' A note here'' @ [newline])
        \<lparr>tex_in_code_block = True, tex_lines_to_translate = [],
         tex_line_indices_to_translate = []\<rparr>)
       = [''A note here'' @ [newline]]
   \<and> tex_in_code_block (tex_scan_line (0, item_command @ '' A note here'' @ [newline])
        \<lparr>tex_in_code_block = True, tex_lines_to_translate = [],
         tex_line_indices_to_translate = []\<rparr>)"
proof -
  let ?line = "item_command @ '' A note here'' @ [newline]"
  let ?st = "\<lparr>tex_in_code_block = True, tex_lines_to_translate = [],
              tex_line_indices_to_translate = []\<rparr>"
  have m: "item_match ?line = Some (item_command @ '' '')"
    by (simp add: item_match_def item_command_def string_prims)
  have s: "item_sub ?line = ''A note here'' @ [newline]"
    by (simp add: item_sub_def item_match_def item_command_def string_prims)
  have ne: "strip (item_sub ?line) \<noteq> []"
    unfolding s by (simp add: string_prims)
  note t = tex_item_line_rule_one [OF m, where i = 0 and st = ?st and pre = "[]"
      and post = "[]" and j = 0 and translated_texts = "[]" and translated_lines = "[]"]
  from t have b: "tex_in_code_block (tex_scan_line (0, ?line) ?st) = tex_in_code_block ?st"
    by blast
  from t ne have c: "tex_lines_to_translate (tex_scan_line (0, ?line) ?st)
      = tex_lines_to_translate ?st @ [item_sub ?line]"
    by presburger
  from m s b c show ?thesis by simp
qed

section \<open>Inline code in the lightweight-markup driver\<close>

text \<open>
  Claim C4, as stated, does not hold: for the line \<open>Use `foo()` to start.\<close> and the
  upper-case translator the driver does not produce \<open>USE `foo()` TO START.\<close>.
\<close>

theorem md_inline_code_spaces_counterexample:
  "md_process_file no_escapes uppercase (''Use '' @ [backtick] @ ''foo()'' @ [backtick] @ '' to start.'')
   \<noteq> ''USE '' @ [backtick] @ ''foo()'' @ [backtick] @ '' TO START.''"
  by (simp add: md_process_file_def md_translated_lines_def md_scan_lines_def md_scan_line_def
       md_scan_init_def md_reassemble_def md_put_def is_fence_def CODE_BLOCK_MARKER_def line_ends_def
       translate_line_def inline_code_match_def placeholder_def placeholder_match_def
       re_template_def uppercase_def upper_char_def enumerate_eq_zip Let_def eval_nat_numeral string_prims)

text \<open>
  Claim C4, amended. The line \<open>Use `foo()` to start.\<close> under the upper-case
  translator becomes \<open>USE`foo()`TO START.\<close>: the inline code is kept as it was and
  the prose is put into upper case, but the pattern that puts the code back takes the
  white space on both sides of the placeholder with it, so the spaces between the code
  and the prose are gone. This holds for the line alone and for a file of that line.
\<close>

theorem md_inline_code_scenario:
  "translate_line compile_template uppercase
     (''Use '' @ [backtick] @ ''foo()'' @ [backtick] @ '' to start.'')
   = ''USE'' @ [backtick] @ ''foo()'' @ [backtick] @ ''TO START.''
   \<and> md_process_file compile_template uppercase
     (''Use '' @ [backtick] @ ''foo()'' @ [backtick] @ '' to start.'' @ [newline])
   = ''USE'' @ [backtick] @ ''foo()'' @ [backtick] @ ''TO START.'' @ [newline]"
  by (simp add: md_process_file_def md_translated_lines_def md_scan_lines_def md_scan_line_def
       md_scan_init_def md_reassemble_def md_put_def is_fence_def CODE_BLOCK_MARKER_def line_ends_def
       translate_line_def inline_code_match_def placeholder_def placeholder_match_def
       re_template_def uppercase_def upper_char_def enumerate_eq_zip Let_def eval_nat_numeral string_prims)

section \<open>Excluded elements in the markup driver\<close>

text \<open>
  Claim C3, as stated, does not hold: below an excluded element (\<open>a\<close>) the text of a
  nested element that is not excluded (\<open>span\<close>) is not translated, while the walk
  does translate the same \<open>span\<close> where it meets it outside, and the paragraph beside.
\<close>

theorem html_excluded_subtree_counterexample:
  "html_process_file uppercase
     (Tag ''[document]'' []
        [Tag ''body'' []
           [Tag ''a'' [] [NavigableString ''link'', Tag ''span'' [] [NavigableString ''inner'']],
            Tag ''p'' [] [NavigableString ''para'']]])
   = Inr (Tag ''[document]'' []
        [Tag ''body'' []
           [Tag ''a'' [] [NavigableString ''link'', Tag ''span'' [] [NavigableString ''inner'']],
            Tag ''p'' [] [NavigableString ''PARA'']]])
   \<and> translate_element uppercase ''body'' (Tag ''span'' [] [NavigableString ''inner''])
       = Tag ''span'' [] [NavigableString ''INNER'']"
  by (simp add: html_process_file_def EXCLUDE_TAGS_def SPECIAL_HANDLING_TAGS_def
      html_translate_with_semaphore_def uppercase_def upper_char_def string_prims)

text \<open>
  Text below an excluded element is translated all the same in two cases. The first loop
  runs over every special element wherever it stands, so the comment lines of a
  \<open>pre\<close> element below an excluded \<open>a\<close> are translated. And the walk starts at
  the body: where the body itself stands below an excluded element (here a \<open>head\<close>;
  the root \<open>[document]\<close> is excluded as well), the text below the body is translated.
\<close>

lemma html_excluded_subtree_exceptions:
  "html_process_file uppercase
     (Tag ''[document]'' []
        [Tag ''body'' [] [Tag ''a'' [] [Tag ''pre'' [] [NavigableString ''// hi'']]]])
   = Inr (Tag ''[document]'' []
        [Tag ''body'' [] [Tag ''a'' [] [Tag ''pre'' [] [NavigableString ''// HI'']]]])
   \<and> html_process_file uppercase
       (Tag ''[document]'' []
          [Tag ''head'' [] [Tag ''body'' [] [Tag ''p'' [] [NavigableString ''x'']]]])
     = Inr (Tag ''[document]'' []
          [Tag ''head'' [] [Tag ''body'' [] [Tag ''p'' [] [NavigableString ''X'']]]])"
  by (simp add: html_process_file_def EXCLUDE_TAGS_def SPECIAL_HANDLING_TAGS_def
      process_special_text_def pre_scan_lines_def pre_scan_line_def pre_scan_init_def
      translate_text_list_def slice_to_find_def enumerate_eq_zip Let_def
      html_translate_with_semaphore_def uppercase_def upper_char_def string_prims)

text \<open>
  The markup driver always returns a tree: every comment text that is queued has its
  entry in the dictionary, so the lookup in the loop over the results finds it.
\<close>

lemma those_inr_id: "(\<And>c. c \<in> set cs \<Longrightarrow> f c = Inr c) \<Longrightarrow> those_inr (map f cs) = Inr cs"
  by (induction cs) auto

lemma those_inr_Inr: "those_inr rs = Inr xs \<Longrightarrow> rs = map Inr xs"
  by (induction rs arbitrary: xs rule: those_inr.induct) (auto split: sum.splits)

lemma those_inr_map_nth:
  assumes "those_inr (map f cs) = Inr cs'"
  shows "length cs' = length cs" and "i < length cs \<Longrightarrow> f (cs ! i) = Inr (cs' ! i)"
proof -
  from assms have e: "map f cs = map Inr cs'" by (rule those_inr_Inr)
  then show l: "length cs' = length cs" by (metis length_map)
  assume i: "i < length cs"
  with e l have "map f cs ! i = map Inr cs' ! i" by simp
  with i l show "f (cs ! i) = Inr (cs' ! i)" by simp
qed

lemma those_inr_total:
  "(\<And>c. c \<in> set cs \<Longrightarrow> \<exists>y. f c = Inr y) \<Longrightarrow> \<exists>ys. those_inr (map f cs) = Inr ys"
proof (induction cs)
  case Nil
  show ?case by simp
next
  case (Cons c cs)
  from Cons.prems obtain y where y: "f c = Inr y" by auto
  from Cons obtain ys where "those_inr (map f cs) = Inr ys" by auto
  with y show ?case by simp
qed

lemma pre_scan_line_keys:
  "set (pre_lines_to_translate st) \<subseteq> dom (pre_translation_map st)
   \<Longrightarrow> set (pre_lines_to_translate (pre_scan_line il st))
       \<subseteq> dom (pre_translation_map (pre_scan_line il st))"
  by (auto simp: pre_scan_line_def Let_def)

lemma fold_pre_scan_keys:
  "set (pre_lines_to_translate st) \<subseteq> dom (pre_translation_map st)
   \<Longrightarrow> set (pre_lines_to_translate (fold pre_scan_line ils st))
       \<subseteq> dom (pre_translation_map (fold pre_scan_line ils st))"
proof (induction ils arbitrary: st)
  case Nil
  then show ?case by simp
next
  case (Cons il ils)
  from Cons.prems have "set (pre_lines_to_translate (pre_scan_line il st))
       \<subseteq> dom (pre_translation_map (pre_scan_line il st))"
    by (rule pre_scan_line_keys)
  then show ?case using Cons.IH by simp
qed

lemma pre_scan_lines_keys:
  "set (pre_lines_to_translate (pre_scan_lines lines))
   \<subseteq> dom (pre_translation_map (pre_scan_lines lines))"
  unfolding pre_scan_lines_def by (rule fold_pre_scan_keys) (simp add: pre_scan_init_def)

lemma pre_put_total:
  "fst ` set ps \<subseteq> dom m \<Longrightarrow> \<exists>lines'. pre_put m ps lines = Inr lines'"
proof (induction ps arbitrary: lines)
  case Nil
  show ?case by simp
next
  case (Cons pr ps)
  obtain original translated where pr: "pr = (original, translated)" by (cases pr)
  with Cons.prems obtain k where k: "m original = Some k" by auto
  from Cons.prems have "fst ` set ps \<subseteq> dom m" by auto
  from Cons.IH [OF this] show ?case using pr k by (simp add: Let_def)
qed

lemma process_special_text_total: "\<exists>s. process_special_text tr text = Inr s"
proof -
  let ?st = "pre_scan_lines (split_lines text)"
  let ?ps = "zip (filter (\<lambda>text. strip text \<noteq> []) (pre_lines_to_translate ?st))
                 (translate_text_list tr (pre_lines_to_translate ?st))"
  have "fst ` set ?ps \<subseteq> set (pre_lines_to_translate ?st)"
    by (auto dest: set_zip_leftD)
  with pre_scan_lines_keys [of "split_lines text"]
  have "fst ` set ?ps \<subseteq> dom (pre_translation_map ?st)" by blast
  from pre_put_total [OF this]
  obtain lines' where "pre_put (pre_translation_map ?st) ?ps (split_lines text) = Inr lines'"
    by blast
  then show ?thesis by (simp add: process_special_text_def Let_def)
qed

lemma process_special_total: "\<exists>n'. process_special tr n = Inr n'"
proof (induction n)
  case (NavigableString s)
  show ?case by simp
next
  case (SpecialString cls s)
  show ?case by simp
next
  case (Tag name attrs children)
  show ?case
  proof (cases "name \<in> set SPECIAL_HANDLING_TAGS")
    case True
    from process_special_text_total
    obtain s where "process_special_text tr (get_text (Tag name attrs children)) = Inr s"
      by blast
    with True show ?thesis by simp
  next
    case False
    have "\<exists>ys. those_inr (map (process_special tr) children) = Inr ys"
      by (rule those_inr_total) (rule Tag.IH)
    then obtain ys where "those_inr (map (process_special tr) children) = Inr ys" ..
    with False show ?thesis by simp
  qed
qed

lemma html_process_file_total: "\<exists>out. html_process_file tr soup = Inr out"
proof -
  from process_special_total obtain n' where "process_special tr soup = Inr n'" by blast
  then show ?thesis
    by (cases n') (auto simp: html_process_file_def split: option.splits)
qed

text \<open>
  A tree without special elements is left as it is by the first loop, and the first loop
  keeps every such tree that lies below no special element at its position. The walk
  keeps every excluded element at its position, wherever it starts.
\<close>

lemma process_special_id:
  "set (tag_names n) \<inter> set SPECIAL_HANDLING_TAGS = {} \<Longrightarrow> process_special tr n = Inr n"
proof (induction n)
  case (NavigableString s)
  show ?case by simp
next
  case (SpecialString cls s)
  show ?case by simp
next
  case (Tag name attrs children)
  from Tag.prems have n: "name \<notin> set SPECIAL_HANDLING_TAGS" by auto
  have "those_inr (map (process_special tr) children) = Inr children"
  proof (rule those_inr_id)
    fix c assume c: "c \<in> set children"
    with Tag.prems have "set (tag_names c) \<inter> set SPECIAL_HANDLING_TAGS = {}" by auto
    with Tag.IH c show "process_special tr c = Inr c" by simp
  qed
  with n show ?case by simp
qed

lemma process_special_subtree:
  "process_special tr n = Inr n' \<Longrightarrow> subtree n p = Some e
   \<Longrightarrow> set (ancestors n p) \<inter> set SPECIAL_HANDLING_TAGS = {}
   \<Longrightarrow> set (tag_names e) \<inter> set SPECIAL_HANDLING_TAGS = {}
   \<Longrightarrow> subtree n' p = Some e"
proof (induction p arbitrary: n n')
  case Nil
  then have "n = e" by simp
  with Nil.prems(4) have "process_special tr n = Inr n" by (simp add: process_special_id)
  with Nil.prems(1,2) show ?case by simp
next
  case (Cons i p)
  from Cons.prems(2) obtain name attrs children where n: "n = Tag name attrs children"
    by (cases n) auto
  with Cons.prems(2) have i: "i < length children" and s: "subtree (children ! i) p = Some e"
    by (auto split: if_splits)
  from Cons.prems(3) n i have ns: "name \<notin> set SPECIAL_HANDLING_TAGS"
    and a: "set (ancestors (children ! i) p) \<inter> set SPECIAL_HANDLING_TAGS = {}"
    by auto
  from Cons.prems(1) n ns obtain children' where
    t: "those_inr (map (process_special tr) children) = Inr children'"
    and n': "n' = Tag name attrs children'"
    by (auto split: sum.splits)
  from those_inr_map_nth [OF t] i
  have l: "length children' = length children"
    and c: "process_special tr (children ! i) = Inr (children' ! i)" by auto
  from Cons.IH [OF c s a Cons.prems(4)] n' l i show ?case by simp
qed

lemma translate_element_subtree:
  "subtree n p = Some (Tag name attrs children)
   \<Longrightarrow> name \<in> set EXCLUDE_TAGS \<or> name \<in> set SPECIAL_HANDLING_TAGS
   \<Longrightarrow> subtree (translate_element tr parent_name n) p = Some (Tag name attrs children)"
proof (induction p arbitrary: n parent_name)
  case Nil
  then show ?case by auto
next
  case (Cons i p)
  from Cons.prems(1) obtain q qattrs qchildren where n: "n = Tag q qattrs qchildren"
    by (cases n) auto
  with Cons.prems(1) have i: "i < length qchildren"
    and s: "subtree (qchildren ! i) p = Some (Tag name attrs children)"
    by (auto split: if_splits)
  show ?case
  proof (cases "q \<in> set EXCLUDE_TAGS \<or> q \<in> set SPECIAL_HANDLING_TAGS")
    case True
    with n Cons.prems(1) show ?thesis by simp
  next
    case False
    from Cons.IH [OF s Cons.prems(2)] n i False show ?thesis by simp
  qed
qed

lemma on_first_None:
  "nm \<notin> set (concat (map tag_names ns)) \<Longrightarrow> on_first nm f parent_name ns = None"
proof (induction nm f parent_name ns rule: on_first.induct)
  case (1 nm f parent_name)
  show ?case by simp
next
  case (2 nm f parent_name s ns)
  then show ?case by simp
next
  case (3 nm f parent_name cls s ns)
  then show ?case by simp
next
  case (4 nm f parent_name name attrs children ns)
  from "4.prems" have ne: "name \<noteq> nm"
    and c: "nm \<notin> set (concat (map tag_names children))"
    and r: "nm \<notin> set (concat (map tag_names ns))" by auto
  from "4.IH"(1) [OF ne c] have a: "on_first nm f name children = None" .
  from "4.IH"(2) [OF ne a r] a ne show ?case by simp
qed

lemma on_first_length:
  "on_first nm f parent_name ns = Some ns' \<Longrightarrow> length ns' = length ns"
proof (induction nm f parent_name ns arbitrary: ns' rule: on_first.induct)
  case (1 nm f parent_name)
  then show ?case by simp
next
  case (2 nm f parent_name s ns)
  then show ?case by auto
next
  case (3 nm f parent_name cls s ns)
  then show ?case by auto
next
  case (4 nm f parent_name name attrs children ns)
  then show ?case by (auto split: if_splits option.splits)
qed

lemma on_first_subtree:
  "on_first nm f parent_name ns = Some ns' \<Longrightarrow> i < length ns
   \<Longrightarrow> subtree (ns ! i) p = Some e \<Longrightarrow> nm \<notin> set (tag_names e)
   \<Longrightarrow> (\<And>q n p. subtree n p = Some e \<Longrightarrow> subtree (f q n) p = Some e)
   \<Longrightarrow> subtree (ns' ! i) p = Some e"
proof (induction nm f parent_name ns arbitrary: ns' i p rule: on_first.induct)
  case (1 nm f parent_name)
  then show ?case by simp
next
  case (2 nm f parent_name s ns)
  from "2.prems"(1) obtain ns'' where o: "on_first nm f parent_name ns = Some ns''"
    and ns': "ns' = NavigableString s # ns''" by auto
  show ?case
  proof (cases i)
    case 0
    with "2.prems" ns' show ?thesis by simp
  next
    case (Suc k)
    with "2.prems" have "k < length ns" "subtree (ns ! k) p = Some e" by auto
    from "2.IH" [OF o this "2.prems"(4,5)] ns' Suc show ?thesis by simp
  qed
next
  case (3 nm f parent_name cls s ns)
  from "3.prems"(1) obtain ns'' where o: "on_first nm f parent_name ns = Some ns''"
    and ns': "ns' = SpecialString cls s # ns''" by auto
  show ?case
  proof (cases i)
    case 0
    with "3.prems" ns' show ?thesis by simp
  next
    case (Suc k)
    with "3.prems" have "k < length ns" "subtree (ns ! k) p = Some e" by auto
    from "3.IH" [OF o this "3.prems"(4,5)] ns' Suc show ?thesis by simp
  qed
next
  case (4 nm f parent_name name attrs children ns)
  show ?case
  proof (cases "name = nm")
    case True
    with "4.prems"(1) have ns': "ns' = f parent_name (Tag name attrs children) # ns" by simp
    show ?thesis
    proof (cases i)
      case 0
      with "4.prems"(3) have "subtree (Tag name attrs children) p = Some e" by simp
      from "4.prems"(5) [OF this] ns' 0 show ?thesis by simp
    next
      case (Suc k)
      with "4.prems"(3) ns' show ?thesis by simp
    qed
  next
    case False
    show ?thesis
    proof (cases "on_first nm f name children")
      case (Some children')
      with "4.prems"(1) False have ns': "ns' = Tag name attrs children' # ns" by simp
      show ?thesis
      proof (cases i)
        case (Suc k)
        with "4.prems"(3) ns' show ?thesis by simp
      next
        case 0
        with "4.prems"(3) have s: "subtree (Tag name attrs children) p = Some e" by simp
        show ?thesis
        proof (cases p)
          case Nil
          with s have e: "e = Tag name attrs children" by simp
          with "4.prems"(4) have "nm \<notin> set (concat (map tag_names children))" by simp
          then have "on_first nm f name children = None" by (rule on_first_None)
          with Some show ?thesis by simp
        next
          case (Cons j p')
          with s have j: "j < length children" and sj: "subtree (children ! j) p' = Some e"
            by (auto split: if_splits)
          from "4.IH"(1) [OF False Some j sj "4.prems"(4,5)]
          have "subtree (children' ! j) p' = Some e" .
          moreover from on_first_length [OF Some] have "length children' = length children" .
          ultimately show ?thesis using ns' 0 Cons j by simp
        qed
      qed
    next
      case None
      with "4.prems"(1) False obtain ns'' where o: "on_first nm f parent_name ns = Some ns''"
        and ns': "ns' = Tag name attrs children # ns''" by auto
      show ?thesis
      proof (cases i)
        case 0
        with "4.prems"(3) ns' show ?thesis by simp
      next
        case (Suc k)
        with "4.prems" have "k < length ns" "subtree (ns ! k) p = Some e" by auto
        from "4.IH"(2) [OF False None o this "4.prems"(4,5)] ns' Suc show ?thesis by simp
      qed
    qed
  qed
qed

lemma html_process_file_subtree:
  assumes s: "subtree soup p = Some (Tag name attrs children)"
    and ex: "name \<in> set EXCLUDE_TAGS"
    and anc: "set (ancestors soup p) \<inter> set SPECIAL_HANDLING_TAGS = {}"
    and sp: "set (tag_names (Tag name attrs children)) \<inter> set SPECIAL_HANDLING_TAGS = {}"
    and body: "''body'' \<notin> set (tag_names (Tag name attrs children))"
    and out: "html_process_file tr soup = Inr out"
  shows "subtree out p = Some (Tag name attrs children)"
proof -
  let ?e = "Tag name attrs children"
  from process_special_total obtain n' where ps: "process_special tr soup = Inr n'" by blast
  from process_special_subtree [OF ps s anc sp] have s': "subtree n' p = Some ?e" .
  show ?thesis
  proof (cases n')
    case (NavigableString t)
    with ps out s' show ?thesis by (simp add: html_process_file_def)
  next
    case (SpecialString cls t)
    with ps out s' show ?thesis by (simp add: html_process_file_def)
  next
    case (Tag r rattrs rchildren)
    show ?thesis
    proof (cases "on_first ''body'' (translate_element tr) r rchildren")
      case None
      with ps out Tag s' show ?thesis by (simp add: html_process_file_def)
    next
      case (Some rchildren')
      with ps out Tag have o: "out = Tag r rattrs rchildren'" by (simp add: html_process_file_def)
      show ?thesis
      proof (cases p)
        case Nil
        with s' Tag have "?e = Tag r rattrs rchildren" by simp
        with body have "''body'' \<notin> set (concat (map tag_names rchildren))" by simp
        then have "on_first ''body'' (translate_element tr) r rchildren = None"
          by (rule on_first_None)
        with Some show ?thesis by simp
      next
        case (Cons i p')
        with s' Tag have i: "i < length rchildren"
          and si: "subtree (rchildren ! i) p' = Some ?e"
          by (auto split: if_splits)
        have keep: "subtree (translate_element tr q n) p = Some ?e"
          if "subtree n p = Some ?e" for q n p
          using that ex by (simp add: translate_element_subtree)
        from on_first_subtree [OF Some i si body keep]
        have "subtree (rchildren' ! i) p' = Some ?e" .
        with on_first_length [OF Some] i o Cons show ?thesis by simp
      qed
    qed
  qed
qed

text \<open>
  Claim C3, amended. Exclusion is a blackout of the walk for the whole subtree: for every
  element whose tag name is in the exclusion set the walk returns at once, it changes
  nothing in the element and sends no text from below it to the translation service,
  text of nested elements that are not excluded included. The driver as a whole returns,
  and the tree it writes holds the element unchanged, with all that is below it, at the
  position where it stood, provided that the element neither lies below nor contains a
  special element and contains no \<open>body\<close> element.
\<close>

theorem html_excluded_subtree_kept:
  assumes "subtree soup p = Some (Tag name attrs children)"
    and "name \<in> set EXCLUDE_TAGS"
    and "set (ancestors soup p) \<inter> set SPECIAL_HANDLING_TAGS = {}"
    and "set (tag_names (Tag name attrs children)) \<inter> set SPECIAL_HANDLING_TAGS = {}"
    and "''body'' \<notin> set (tag_names (Tag name attrs children))"
  shows "translate_element tr parent_name (Tag name attrs children) = Tag name attrs children
       \<and> walk_segments parent_name (Tag name attrs children) = []
       \<and> (\<exists>out. html_process_file tr soup = Inr out
                \<and> subtree out p = Some (Tag name attrs children))"
proof -
  from assms(2)
  have a: "translate_element tr parent_name (Tag name attrs children) = Tag name attrs children"
    and b: "walk_segments parent_name (Tag name attrs children) = []"
    by simp_all
  from html_process_file_total obtain out where out: "html_process_file tr soup = Inr out"
    by blast
  from html_process_file_subtree [OF assms out]
  have "subtree out p = Some (Tag name attrs children)" .
  with a b out show ?thesis by blast
qed

theorem html_excluded_subtree_kept_witness:
  "subtree
     (Tag ''[document]'' []
        [Tag ''body'' []
           [Tag ''a'' [] [NavigableString ''link'', Tag ''span'' [] [NavigableString ''inner'']],
            Tag ''p'' [] [NavigableString ''para'']]])
     [0, 0]
   = Some (Tag ''a'' [] [NavigableString ''link'', Tag ''span'' [] [NavigableString ''inner'']])
   \<and> ''a'' \<in> set EXCLUDE_TAGS
   \<and> (\<exists>out. html_process_file uppercase
               (Tag ''[document]'' []
                  [Tag ''body'' []
                     [Tag ''a'' []
                        [NavigableString ''link'', Tag ''span'' [] [NavigableString ''inner'']],
                      Tag ''p'' [] [NavigableString ''para'']]])
             = Inr out
           \<and> subtree out [0, 0]
             = Some (Tag ''a'' []
                       [NavigableString ''link'', Tag ''span'' [] [NavigableString ''inner'']])
           \<and> subtree out [0, 1] = Some (Tag ''p'' [] [NavigableString ''PARA'']))"
proof -
  let ?a = "Tag ''a'' [] [NavigableString ''link'', Tag ''span'' [] [NavigableString ''inner'']]"
  let ?soup = "Tag ''[document]'' [] [Tag ''body'' [] [?a, Tag ''p'' [] [NavigableString ''para'']]]"
  have h1: "subtree ?soup [0, 0] = Some ?a" by simp
  have h2: "''a'' \<in> set EXCLUDE_TAGS" by (simp add: EXCLUDE_TAGS_def)
  have h3: "set (ancestors ?soup [0, 0]) \<inter> set SPECIAL_HANDLING_TAGS = {}"
    by (simp add: SPECIAL_HANDLING_TAGS_def)
  have h4: "set (tag_names ?a) \<inter> set SPECIAL_HANDLING_TAGS = {}"
    by (simp add: SPECIAL_HANDLING_TAGS_def)
  have h5: "''body'' \<notin> set (tag_names ?a)" by simp
  from html_excluded_subtree_kept [OF h1 h2 h3 h4 h5, of uppercase "''body''"]
  obtain out where o: "html_process_file uppercase ?soup = Inr out"
    and s: "subtree out [0, 0] = Some ?a" by blast
  have "html_process_file uppercase ?soup
        = Inr (Tag ''[document]'' [] [Tag ''body'' [] [?a, Tag ''p'' [] [NavigableString ''PARA'']]])"
    by (simp add: html_process_file_def EXCLUDE_TAGS_def SPECIAL_HANDLING_TAGS_def
      html_translate_with_semaphore_def uppercase_def upper_char_def string_prims)
  with o have "subtree out [0, 1] = Some (Tag ''p'' [] [NavigableString ''PARA''])" by auto
  with h1 h2 o s show ?thesis by blast
qed

section \<open>A failed translation in a special element\<close>

text \<open>
  Claim C1 on the markup driver. A special element holds the comment lines \<open>// a\<close>
  and \<open>// b\<close>, and the service fails for \<open>a\<close>. \<open>translate_text_list\<close> drops the
  failed result, so the results no longer line up with the texts: the translation of
  \<open>b\<close> is written into the line of \<open>a\<close>, and the line of \<open>b\<close> is left as it
  was. With a service that does not fail, both lines get their own translation.
\<close>

theorem html_failure_shifts_translations:
  "html_process_file fails_on_a
     (Tag ''[document]'' [] [Tag ''pre'' [] [NavigableString (''// a'' @ [newline] @ ''// b'')]])
   = Inr (Tag ''[document]'' [] [Tag ''pre'' [] [NavigableString (''// B'' @ [newline] @ ''// b'')]])
   \<and> html_process_file uppercase
     (Tag ''[document]'' [] [Tag ''pre'' [] [NavigableString (''// a'' @ [newline] @ ''// b'')]])
   = Inr (Tag ''[document]'' [] [Tag ''pre'' [] [NavigableString (''// A'' @ [newline] @ ''// B'')]])"
  by (simp add: html_process_file_def EXCLUDE_TAGS_def SPECIAL_HANDLING_TAGS_def
      process_special_text_def pre_scan_lines_def pre_scan_line_def pre_scan_init_def
      translate_text_list_def slice_to_find_def enumerate_eq_zip Let_def
      html_translate_with_semaphore_def fails_on_a_def uppercase_def upper_char_def string_prims)

section \<open>Duplicate comments in the C-family driver\<close>

lemma dict_zip_Cons:
  "dict_zip (k # ks) (v # vs) x =
     (case dict_zip ks vs x of Some y \<Rightarrow> Some y | None \<Rightarrow> if x = k then Some v else None)"
  by (simp add: dict_zip_def map_add_def split: option.splits)

lemma dict_zip_None: "x \<notin> set ks \<Longrightarrow> dict_zip ks vs x = None"
proof -
  assume "x \<notin> set ks"
  then have "x \<notin> fst ` set (rev (zip ks vs))"
    by (auto dest: set_zip_leftD)
  then show ?thesis
    unfolding dict_zip_def by (simp add: map_of_eq_None_iff)
qed

lemma dict_zip_last:
  "length vs = length ks \<Longrightarrow> j < length ks
   \<Longrightarrow> (\<forall>k. j < k \<and> k < length ks \<longrightarrow> ks ! k \<noteq> ks ! j)
   \<Longrightarrow> dict_zip ks vs (ks ! j) = Some (vs ! j)"
proof (induction ks arbitrary: vs j)
  case Nil
  then show ?case by simp
next
  case (Cons k ks)
  then obtain v vs' where vs: "vs = v # vs'" by (cases vs) auto
  show ?case
  proof (cases j)
    case 0
    have "k \<notin> set ks"
    proof
      assume "k \<in> set ks"
      then obtain m where "m < length ks" "ks ! m = k" by (auto simp: in_set_conv_nth)
      with Cons.prems(3) 0 show False by (auto dest: spec [of _ "Suc m"])
    qed
    then show ?thesis using 0 vs by (simp add: dict_zip_Cons dict_zip_None)
  next
    case (Suc j')
    have "\<forall>k. j' < k \<and> k < length ks \<longrightarrow> ks ! k \<noteq> ks ! j'"
    proof (intro allI impI)
      fix m assume "j' < m \<and> m < length ks"
      with Cons.prems(3) [rule_format, of "Suc m"] Suc show "ks ! m \<noteq> ks ! j'" by simp
    qed
    with Cons.IH [of vs' j'] Cons.prems vs Suc
    have "dict_zip ks vs' (ks ! j') = Some (vs' ! j')" by simp
    then show ?thesis using Suc vs by (simp add: dict_zip_Cons)
  qed
qed

text \<open>
  Claim C10. In the C-family driver the content is rebuilt by one function of the
  comment text, the lookup in the dictionary built from the comments and the gathered
  results. So two occurrences of the same comment text get the same replacement,
  whatever the results are (one result for each comment): it is the result that was
  returned for the last occurrence of that text.
\<close>

theorem cpp_duplicate_comments_uniform:
  assumes "length translated_comments = length (matches (re_scan comment_match content))"
  shows "cpp_reassemble content translated_comments
           = sub_tokens
               (replace_comment
                  (dict_zip (matches (re_scan comment_match content)) translated_comments))
               (re_scan comment_match content)
       \<and> (\<forall>i j. i < length (matches (re_scan comment_match content))
              \<and> j < length (matches (re_scan comment_match content))
              \<and> matches (re_scan comment_match content) ! i
                  = matches (re_scan comment_match content) ! j
              \<and> (\<forall>k. j < k \<and> k < length (matches (re_scan comment_match content))
                     \<longrightarrow> matches (re_scan comment_match content) ! k
                           \<noteq> matches (re_scan comment_match content) ! j)
            \<longrightarrow> replace_comment
                  (dict_zip (matches (re_scan comment_match content)) translated_comments)
                  (matches (re_scan comment_match content) ! i)
                = translated_comments ! j)"
proof -
  let ?cs = "matches (re_scan comment_match content)"
  have a: "cpp_reassemble content translated_comments
           = sub_tokens (replace_comment (dict_zip ?cs translated_comments))
               (re_scan comment_match content)"
    by (simp add: cpp_reassemble_def Let_def)
  have b: "replace_comment (dict_zip ?cs translated_comments) (?cs ! i) = translated_comments ! j"
    if "i < length ?cs" "j < length ?cs" "?cs ! i = ?cs ! j"
       "\<forall>k. j < k \<and> k < length ?cs \<longrightarrow> ?cs ! k \<noteq> ?cs ! j" for i j
  proof -
    have "dict_zip ?cs translated_comments (?cs ! j) = Some (translated_comments ! j)"
      using dict_zip_last [OF assms that(2) that(4)] .
    then show ?thesis using that(3) by (simp add: replace_comment_def)
  qed
  from a b show ?thesis by blast
qed

theorem cpp_duplicate_comments_uniform_witness:
  "matches (re_scan comment_match (''// a'' @ [newline] @ ''x; // a'')) = [''// a'', ''// a'']
   \<and> cpp_reassemble (''// a'' @ [newline] @ ''x; // a'') [''// first'', ''// second'']
       = ''// second'' @ [newline] @ ''x; // second''
   \<and> replace_comment (dict_zip [''// a'', ''// a''] [''// first'', ''// second'']) ''// a''
       = ''// second''"
proof -
  let ?c = "''// a'' @ [newline] @ ''x; // a''"
  let ?rs = "[''// first'', ''// second'']"
  have m: "matches (re_scan comment_match ?c) = [''// a'', ''// a'']"
    by (simp add: comment_match_def string_prims)
  have len: "length ?rs = length (matches (re_scan comment_match ?c))"
    unfolding m by simp
  note t = cpp_duplicate_comments_uniform [OF len]
  have "replace_comment (dict_zip (matches (re_scan comment_match ?c)) ?rs)
                  (matches (re_scan comment_match ?c) ! 0) = ?rs ! 1"
  proof (rule t [THEN conjunct2, rule_format, of 0 1])
    show "0 < length (matches (re_scan comment_match ?c))
        \<and> 1 < length (matches (re_scan comment_match ?c))
        \<and> matches (re_scan comment_match ?c) ! 0 = matches (re_scan comment_match ?c) ! 1
        \<and> (\<forall>k. 1 < k \<and> k < length (matches (re_scan comment_match ?c))
               \<longrightarrow> matches (re_scan comment_match ?c) ! k
                     \<noteq> matches (re_scan comment_match ?c) ! 1)"
      unfolding m by auto
  qed
  then have r: "replace_comment (dict_zip [''// a'', ''// a''] ?rs) ''// a'' = ''// second''"
    unfolding m by simp
  have o: "cpp_reassemble ?c ?rs = ''// second'' @ [newline] @ ''x; // second''"
    by (simp add: cpp_reassemble_def comment_match_def dict_zip_def replace_comment_def
        string_prims)
  from m o r show ?thesis by blast
qed

section \<open>Writing results back by index\<close>

lemma fold_update_length:
  "length (fold (\<lambda>p acc. acc[key p := val p]) ps acc) = length acc"
  by (induction ps arbitrary: acc) auto

lemma fold_update_other:
  "i \<notin> key ` set ps \<Longrightarrow> fold (\<lambda>p acc. acc[key p := val p]) ps acc ! i = acc ! i"
  by (induction ps arbitrary: acc) auto

lemma fold_update_hit:
  "distinct (map key ps) \<Longrightarrow> p \<in> set ps \<Longrightarrow> key p < length acc
   \<Longrightarrow> fold (\<lambda>p acc. acc[key p := val p]) ps acc ! key p = val p"
proof (induction ps arbitrary: acc)
  case Nil
  then show ?case by simp
next
  case (Cons q qs)
  show ?case
  proof (cases "p = q")
    case True
    with Cons.prems have "key p \<notin> key ` set qs" by auto
    then show ?thesis using True Cons.prems(3)
      by (simp add: fold_update_other)
  next
    case False
    with Cons.prems have "p \<in> set qs" "distinct (map key qs)" by auto
    then show ?thesis using Cons.IH [of "acc[key q := val q]"] Cons.prems(3) by simp
  qed
qed

lemma enumerate_snoc: "enumerate 0 (xs @ [x]) = enumerate 0 xs @ [(length xs, x)]"
  by (simp add: enumerate_append_eq)

lemma md_scan_lines_snoc:
  "md_scan_lines (xs @ [x]) = md_scan_line (length xs, x) (md_scan_lines xs)"
  by (simp add: md_scan_lines_def enumerate_snoc)

lemma md_inv_scan: "md_inv lines (md_scan_lines lines)"
proof (induction lines rule: rev_induct)
  case Nil
  show ?case by (simp add: md_inv_def md_scan_lines_def md_scan_init_def)
next
  case (snoc x xs)
  let ?st = "md_scan_lines xs"
  from snoc have blk: "md_in_code_block ?st = odd (length (filter is_fence xs))"
    and srt: "sorted_wrt (<) (map fst (md_info ?st))"
    and all: "list_all (\<lambda>il. fst il < length xs \<and> snd il = xs ! fst il
                     \<and> \<not> is_fence (snd il)
                     \<and> even (length (filter is_fence (take (fst il) xs)))) (md_info ?st)"
    and tasks: "md_tasks ?st = map (\<lambda>il. rstrip_chars line_ends (snd il)) (md_info ?st)"
    by (simp_all add: md_inv_def)
  have all': "list_all (\<lambda>il. fst il < length (xs @ [x]) \<and> snd il = (xs @ [x]) ! fst il
                     \<and> \<not> is_fence (snd il)
                     \<and> even (length (filter is_fence (take (fst il) (xs @ [x]))))) (md_info ?st)"
    using all by (auto simp: list_all_iff nth_append)
  have lt: "\<forall>i \<in> set (map fst (md_info ?st)). i < length xs"
    using all by (auto simp: list_all_iff)
  show ?case
    unfolding md_scan_lines_snoc
    using blk srt all' tasks lt
    by (auto simp: md_inv_def md_scan_line_def Let_def sorted_wrt_append)
qed

lemma md_reassemble_eq:
  "md_reassemble lines info rs =
     fold (\<lambda>it acc. acc[fst (info ! fst it) :=
              snd it @ drop (length (rstrip_chars line_ends (snd (info ! fst it))))
                            (snd (info ! fst it))])
          (enumerate 0 rs) lines"
proof -
  have "md_put info = (\<lambda>it acc. acc[fst (info ! fst it) :=
              snd it @ drop (length (rstrip_chars line_ends (snd (info ! fst it))))
                            (snd (info ! fst it))])"
    by (intro ext) (simp add: md_put_def Let_def)
  then show ?thesis by (simp add: md_reassemble_def)
qed

lemma md_reassemble_length: "length (md_reassemble lines info rs) = length lines"
  unfolding md_reassemble_eq by (rule fold_update_length)

lemma md_reassemble_other:
  assumes "length rs = length info" "i \<notin> fst ` set info"
  shows "md_reassemble lines info rs ! i = lines ! i"
  unfolding md_reassemble_eq
proof (rule fold_update_other)
  show "i \<notin> (\<lambda>it. fst (info ! fst it)) ` set (enumerate 0 rs)"
  proof
    assume "i \<in> (\<lambda>it. fst (info ! fst it)) ` set (enumerate 0 rs)"
    then obtain j where "j < length rs" "i = fst (info ! j)"
      by (auto simp: enumerate_eq_zip in_set_zip)
    with assms show False by (metis nth_mem image_eqI)
  qed
qed

lemma md_reassemble_hit:
  assumes len: "length rs = length info" and d: "distinct (map fst info)"
    and j: "j < length info" and b: "fst (info ! j) < length lines"
  shows "md_reassemble lines info rs ! fst (info ! j)
         = rs ! j @ drop (length (rstrip_chars line_ends (snd (info ! j)))) (snd (info ! j))"
proof -
  let ?key = "\<lambda>it :: nat \<times> string. fst (info ! fst it)"
  let ?val = "\<lambda>it :: nat \<times> string. snd it @ drop (length (rstrip_chars line_ends (snd (info ! fst it))))
                            (snd (info ! fst it))"
  have m: "map ?key (enumerate 0 rs) = map fst info"
    using len by (auto simp: enumerate_eq_zip intro!: nth_equalityI)
  have p: "(j, rs ! j) \<in> set (enumerate 0 rs)"
    using j len by (auto simp: enumerate_eq_zip in_set_zip intro: exI [of _ j])
  have "fold (\<lambda>p acc. acc[?key p := ?val p]) (enumerate 0 rs) lines ! ?key (j, rs ! j) = ?val (j, rs ! j)"
    by (rule fold_update_hit) (use m d p b in auto)
  then show ?thesis unfolding md_reassemble_eq by simp
qed

text \<open>
  Claim C8. In the lightweight-markup driver, a line with an odd number of fence lines
  before it (the flag \<open>in_code_block\<close> is set when the loop reaches it), and every
  fence line itself, is not among the lines whose content is handed to
  \<open>translate_line\<close> (there is one task for each entry of
  \<open>lines_to_translate_info\<close>), and it is in the output as it was in the input.
\<close>

theorem md_code_block_lines_protected:
  assumes "i < length lines"
    and "odd (length (filter is_fence (take i lines))) \<or> is_fence (lines ! i)"
  shows "i \<notin> fst ` set (md_info (md_scan_lines lines))
       \<and> length (md_tasks (md_scan_lines lines)) = length (md_info (md_scan_lines lines))
       \<and> md_translated_lines compile_template tr lines ! i = lines ! i"
proof -
  let ?st = "md_scan_lines lines"
  have inv: "md_inv lines ?st" by (rule md_inv_scan)
  have a: "i \<notin> fst ` set (md_info ?st)"
  proof
    assume "i \<in> fst ` set (md_info ?st)"
    then obtain il where "il \<in> set (md_info ?st)" "fst il = i" by auto
    with inv have "snd il = lines ! i" "\<not> is_fence (snd il)"
      "even (length (filter is_fence (take i lines)))"
      by (auto simp: md_inv_def list_all_iff)
    with assms(2) show False by auto
  qed
  have b: "length (md_tasks ?st) = length (md_info ?st)"
    using inv by (simp add: md_inv_def)
  have c: "md_translated_lines compile_template tr lines ! i = lines ! i"
    using a b by (simp add: md_translated_lines_def Let_def md_reassemble_other)
  from a b c show ?thesis by blast
qed

theorem md_code_block_lines_protected_witness:
  "(1::nat) < length [CODE_BLOCK_MARKER @ [newline], ''x = 1'' @ [newline],
                      CODE_BLOCK_MARKER @ [newline], ''text'' @ [newline]]
   \<and> odd (length (filter is_fence
           (take 1 [CODE_BLOCK_MARKER @ [newline], ''x = 1'' @ [newline],
                    CODE_BLOCK_MARKER @ [newline], ''text'' @ [newline]])))
   \<and> md_translated_lines no_escapes uppercase
        [CODE_BLOCK_MARKER @ [newline], ''x = 1'' @ [newline],
         CODE_BLOCK_MARKER @ [newline], ''text'' @ [newline]] ! 1
       = ''x = 1'' @ [newline]"
proof -
  let ?lines = "[CODE_BLOCK_MARKER @ [newline], ''x = 1'' @ [newline],
                 CODE_BLOCK_MARKER @ [newline], ''text'' @ [newline]]"
  have f: "is_fence (CODE_BLOCK_MARKER @ [newline])"
    by (simp add: is_fence_def CODE_BLOCK_MARKER_def eval_nat_numeral string_prims)
  have a: "(1::nat) < length ?lines" by simp
  have b: "odd (length (filter is_fence (take 1 ?lines)))"
    using f by simp
  from b have c: "odd (length (filter is_fence (take 1 ?lines))) \<or> is_fence (?lines ! 1)"
    by blast
  from md_code_block_lines_protected [OF a c, of no_escapes uppercase] a b
  show ?thesis by simp
qed

lemma tex_scan_lines_snoc:
  "tex_scan_lines (xs @ [x]) = tex_scan_line (length xs, x) (tex_scan_lines xs)"
  by (simp add: tex_scan_lines_def enumerate_snoc)

lemma tex_inv_scan: "tex_inv lines (tex_scan_lines lines)"
proof (induction lines rule: rev_induct)
  case Nil
  show ?case by (simp add: tex_inv_def tex_scan_lines_def tex_scan_init_def)
next
  case (snoc x xs)
  let ?st = "tex_scan_lines xs"
  from snoc have srt: "sorted_wrt (<) (tex_line_indices_to_translate ?st)"
    and all: "list_all (\<lambda>i. i < length xs) (tex_line_indices_to_translate ?st)"
    and ltt: "tex_lines_to_translate ?st
       = map (\<lambda>i. if item_match (xs ! i) \<noteq> None then item_sub (xs ! i) else xs ! i)
             (tex_line_indices_to_translate ?st)"
    by (simp_all add: tex_inv_def)
  have lt: "\<forall>i \<in> set (tex_line_indices_to_translate ?st). i < length xs"
    using all by (simp add: list_all_iff)
  have all': "list_all (\<lambda>i. i < length (xs @ [x])) (tex_line_indices_to_translate ?st)"
    using lt by (auto simp: list_all_iff)
  have ltt': "tex_lines_to_translate ?st
       = map (\<lambda>i. if item_match ((xs @ [x]) ! i) \<noteq> None then item_sub ((xs @ [x]) ! i)
                  else (xs @ [x]) ! i)
             (tex_line_indices_to_translate ?st)"
    unfolding ltt using lt by (auto simp: nth_append)
  show ?case
    unfolding tex_scan_lines_snoc
    using srt all' ltt' lt
    by (auto simp: tex_inv_def tex_scan_line_def Let_def sorted_wrt_append)
qed

lemma tex_reassemble_eq:
  "tex_reassemble lines idxs ts =
     fold (\<lambda>ii acc. acc[snd ii :=
              (case item_match (lines ! snd ii) of
                 Some cmd \<Rightarrow> cmd @ lstrip (ts ! fst ii)
               | None \<Rightarrow> ts ! fst ii)])
          (enumerate 0 idxs) lines"
proof -
  have "tex_put lines ts = (\<lambda>ii acc. acc[snd ii :=
              (case item_match (lines ! snd ii) of
                 Some cmd \<Rightarrow> cmd @ lstrip (ts ! fst ii)
               | None \<Rightarrow> ts ! fst ii)])"
    by (intro ext) (simp add: tex_put_def Let_def split: option.splits)
  then show ?thesis by (simp add: tex_reassemble_def)
qed

lemma tex_reassemble_length: "length (tex_reassemble lines idxs ts) = length lines"
  unfolding tex_reassemble_eq by (rule fold_update_length)

lemma tex_reassemble_other:
  assumes "i \<notin> set idxs"
  shows "tex_reassemble lines idxs ts ! i = lines ! i"
  unfolding tex_reassemble_eq
proof (rule fold_update_other)
  show "i \<notin> snd ` set (enumerate 0 idxs)"
    using assms by (auto simp: enumerate_eq_zip dest: set_zip_rightD)
qed

lemma tex_reassemble_hit:
  assumes d: "distinct idxs" and j: "j < length idxs" and b: "idxs ! j < length lines"
  shows "tex_reassemble lines idxs ts ! (idxs ! j)
         = (case item_match (lines ! (idxs ! j)) of
              Some cmd \<Rightarrow> cmd @ lstrip (ts ! j)
            | None \<Rightarrow> ts ! j)"
proof -
  let ?val = "\<lambda>ii :: nat \<times> nat. (case item_match (lines ! snd ii) of
                 Some cmd \<Rightarrow> cmd @ lstrip (ts ! fst ii)
               | None \<Rightarrow> ts ! fst ii)"
  have m: "map snd (enumerate 0 idxs) = idxs"
    by (auto simp: enumerate_eq_zip intro!: nth_equalityI)
  have p: "(j, idxs ! j) \<in> set (enumerate 0 idxs)"
    using j by (auto simp: enumerate_eq_zip in_set_zip intro: exI [of _ j])
  have "fold (\<lambda>p acc. acc[snd p := ?val p]) (enumerate 0 idxs) lines ! snd (j, idxs ! j)
        = ?val (j, idxs ! j)"
    by (rule fold_update_hit) (use m d p b in auto)
  then show ?thesis unfolding tex_reassemble_eq by (simp split: option.splits)
qed














section \<open>Documents without translatable segments\<close>

lemma concat_readlines: "concat (readlines s) = s"
  by (induction s) (auto split: list.splits)

lemma join_split_lines: "join_lines (split_lines s) = s"
proof (induction s)
  case Nil
  show ?case by simp
next
  case (Cons c s)
  obtain l ls where sp: "split_lines s = l # ls"
    by (cases "split_lines s") (cases s; auto split: if_splits list.splits)+
  show ?case
  proof (cases "c = newline")
    case True
    with Cons sp show ?thesis by simp
  next
    case False
    with Cons sp show ?thesis by (cases ls) auto
  qed
qed

lemma sub_tokens_id: "sub_tokens (\<lambda>s. s) (re_scan m s) = s"
proof (induction m s rule: re_scan.induct)
  case (1 m)
  show ?case by (simp split: option.splits nat.splits)
next
  case (2 m c cs)
  show ?case
  proof (cases "m (c # cs)")
    case None
    with 2 show ?thesis by simp
  next
    case (Some n)
    show ?thesis
    proof (cases n)
      case 0
      with 2 Some show ?thesis by simp
    next
      case (Suc k)
      with 2 Some show ?thesis by simp
    qed
  qed
qed

lemma sub_tokens_cong:
  "(\<And>c. c \<in> set (matches toks) \<Longrightarrow> f c = g c) \<Longrightarrow> sub_tokens f toks = sub_tokens g toks"
  by (induction toks rule: matches.induct) auto

lemma dict_zip_same: "dict_zip cs cs x = Some y \<Longrightarrow> y = x"
proof -
  assume "dict_zip cs cs x = Some y"
  then have "(x, y) \<in> set (zip cs cs)"
    unfolding dict_zip_def by (auto dest: map_of_SomeD)
  then show ?thesis by (auto simp: in_set_zip)
qed

lemma cpp_no_alnum_id: "\<not> has_alnum text \<Longrightarrow> cpp_translate_with_semaphore tr text = text"
  by (simp add: cpp_translate_with_semaphore_def)

lemma cpp_noop:
  assumes "filter has_alnum (matches (re_scan comment_match content)) = []"
  shows "cpp_process_file tr content = content"
proof -
  let ?cs = "matches (re_scan comment_match content)"
  have na: "\<not> has_alnum c" if "c \<in> set ?cs" for c
    using assms that by (auto simp: filter_empty_conv)
  have "map (cpp_translate_with_semaphore tr) ?cs = ?cs"
    by (rule map_idI) (simp add: na cpp_no_alnum_id)
  then have "cpp_reassemble content (map (cpp_translate_with_semaphore tr) ?cs)
             = sub_tokens (replace_comment (dict_zip ?cs ?cs)) (re_scan comment_match content)"
    by (simp add: cpp_reassemble_def Let_def)
  also have "\<dots> = sub_tokens (\<lambda>s. s) (re_scan comment_match content)"
    by (rule sub_tokens_cong)
       (auto simp: replace_comment_def split: option.splits dest: dict_zip_same)
  also have "\<dots> = content" by (rule sub_tokens_id)
  finally show ?thesis by (simp add: cpp_process_file_def Let_def)
qed

lemma rstrip_chars_prefix:
  "rstrip_chars cs l @ drop (length (rstrip_chars cs l)) l = l"
proof -
  have "l = rstrip_chars cs l @ rev (takeWhile (\<lambda>c. c \<in> set cs) (rev l))"
    unfolding rstrip_chars_def
    by (metis rev_append rev_rev_ident takeWhile_dropWhile_id)
  then show ?thesis by (metis append_eq_conv_conj)
qed

lemma translate_line_no_alnum: "\<not> has_alnum line \<Longrightarrow> translate_line ct tr line = line"
  by (simp add: translate_line_def)

lemma md_noop:
  assumes "filter has_alnum (md_tasks (md_scan_lines lines)) = []"
  shows "md_translated_lines ct tr lines = lines"
proof -
  let ?st = "md_scan_lines lines"
  let ?info = "md_info ?st"
  have inv: "md_inv lines ?st" by (rule md_inv_scan)
  then have tasks: "md_tasks ?st = map (\<lambda>il. rstrip_chars line_ends (snd il)) ?info"
    and srt: "sorted_wrt (<) (map fst ?info)"
    by (simp_all add: md_inv_def)
  from srt have d: "distinct (map fst ?info)" by (simp add: strict_sorted_iff)
  have len: "length (md_tasks ?st) = length ?info" by (simp add: tasks)
  have na: "\<not> has_alnum t" if "t \<in> set (md_tasks ?st)" for t
    using assms that by (auto simp: filter_empty_conv)
  have rs: "map (translate_line ct tr) (md_tasks ?st) = md_tasks ?st"
    by (rule map_idI) (simp add: na translate_line_no_alnum)
  have "md_reassemble lines ?info (md_tasks ?st) = lines"
  proof (rule nth_equalityI)
    show "length (md_reassemble lines ?info (md_tasks ?st)) = length lines"
      by (rule md_reassemble_length)
  next
    fix i assume "i < length (md_reassemble lines ?info (md_tasks ?st))"
    then have i: "i < length lines" by (simp add: md_reassemble_length)
    show "md_reassemble lines ?info (md_tasks ?st) ! i = lines ! i"
    proof (cases "i \<in> fst ` set ?info")
      case False
      with len show ?thesis by (rule md_reassemble_other)
    next
      case True
      then obtain j where j: "j < length ?info" and ij: "fst (?info ! j) = i"
        by (auto simp: in_set_conv_nth)
      from j have "?info ! j \<in> set ?info" by simp
      with inv have e: "snd (?info ! j) = lines ! i"
        using ij by (auto simp: md_inv_def list_all_iff)
      have tj: "md_tasks ?st ! j = rstrip_chars line_ends (lines ! i)"
        using j e by (simp add: tasks)
      from md_reassemble_hit [OF len d j] i ij
      have "md_reassemble lines ?info (md_tasks ?st) ! i
            = md_tasks ?st ! j
              @ drop (length (rstrip_chars line_ends (snd (?info ! j)))) (snd (?info ! j))"
        by simp
      then show ?thesis by (simp add: tj e rstrip_chars_prefix)
    qed
  qed
  then show ?thesis by (simp add: md_translated_lines_def Let_def rs)
qed

lemma item_match_rest:
  assumes "item_match line = Some cmd"
  shows "cmd @ lstrip (item_sub line) = line"
proof -
  let ?r = "dropWhile isspace line"
  let ?rest = "dropWhile isspace (drop (length item_command) ?r)"
  from assms have sw: "startswith ?r item_command"
    and cmd: "cmd = takeWhile isspace line @ item_command
                    @ takeWhile isspace (drop (length item_command) ?r)"
    by (auto simp: item_match_def Let_def split: if_splits)
  from sw have r: "?r = item_command @ drop (length item_command) ?r"
    unfolding startswith_def by (metis append_take_drop_id)
  have "line = takeWhile isspace line @ ?r" by simp
  also have "\<dots> = takeWhile isspace line @ item_command @ drop (length item_command) ?r"
    using r by simp
  also have "\<dots> = takeWhile isspace line @ item_command
      @ takeWhile isspace (drop (length item_command) ?r) @ ?rest"
    by simp
  finally have l: "line = cmd @ ?rest" using cmd by simp
  then have "item_sub line = ?rest"
    using assms by (simp add: item_sub_def) (metis append_eq_conv_conj)
  then show ?thesis using l by (simp add: lstrip_def)
qed

lemma tex_no_alnum_id: "\<not> has_alnum text \<Longrightarrow> tex_translate_with_semaphore tr text = text"
  by (simp add: tex_translate_with_semaphore_def)

lemma tex_noop:
  assumes "filter has_alnum (tex_lines_to_translate (tex_scan_lines lines)) = []"
  shows "tex_translated_lines tr lines = lines"
proof -
  let ?st = "tex_scan_lines lines"
  let ?idxs = "tex_line_indices_to_translate ?st"
  let ?ltt = "tex_lines_to_translate ?st"
  have inv: "tex_inv lines ?st" by (rule tex_inv_scan)
  then have ltt: "?ltt = map (\<lambda>i. if item_match (lines ! i) \<noteq> None then item_sub (lines ! i)
                                  else lines ! i) ?idxs"
    and srt: "sorted_wrt (<) ?idxs"
    by (simp_all add: tex_inv_def)
  from srt have d: "distinct ?idxs" by (simp add: strict_sorted_iff)
  have na: "\<not> has_alnum t" if "t \<in> set ?ltt" for t
    using assms that by (auto simp: filter_empty_conv)
  have rs: "map (tex_translate_with_semaphore tr) ?ltt = ?ltt"
    by (rule map_idI) (simp add: na tex_no_alnum_id)
  have "tex_reassemble lines ?idxs ?ltt = lines"
  proof (rule nth_equalityI)
    show "length (tex_reassemble lines ?idxs ?ltt) = length lines"
      by (rule tex_reassemble_length)
  next
    fix i assume "i < length (tex_reassemble lines ?idxs ?ltt)"
    then have i: "i < length lines" by (simp add: tex_reassemble_length)
    show "tex_reassemble lines ?idxs ?ltt ! i = lines ! i"
    proof (cases "i \<in> set ?idxs")
      case False
      then show ?thesis by (rule tex_reassemble_other)
    next
      case True
      then obtain j where j: "j < length ?idxs" and ij: "?idxs ! j = i"
        by (auto simp: in_set_conv_nth)
      have tj: "?ltt ! j = (if item_match (lines ! i) \<noteq> None then item_sub (lines ! i)
                            else lines ! i)"
        using j ij by (subst ltt) simp
      from tex_reassemble_hit [OF d j] i ij
      have "tex_reassemble lines ?idxs ?ltt ! i
            = (case item_match (lines ! i) of
                 Some cmd \<Rightarrow> cmd @ lstrip (?ltt ! j)
               | None \<Rightarrow> ?ltt ! j)"
        by simp
      then show ?thesis
        by (simp add: tj item_match_rest split: option.splits)
    qed
  qed
  then show ?thesis by (simp add: tex_translated_lines_def Let_def rs)
qed

lemma process_special_text_noop:
  "pre_lines_to_translate (pre_scan_lines (split_lines text)) = []
   \<Longrightarrow> process_special_text tr text = Inr text"
  by (simp add: process_special_text_def Let_def join_split_lines)

lemma process_special_flat:
  assumes "name \<in> set SPECIAL_HANDLING_TAGS"
  shows "\<exists>s. process_special tr (Tag name attrs children)
              = Inr (Tag name attrs [NavigableString s])"
proof -
  from process_special_text_total
  obtain s where "process_special_text tr (get_text (Tag name attrs children)) = Inr s"
    by blast
  with assms show ?thesis by simp
qed

lemma process_special_flat_text:
  assumes "name \<in> set SPECIAL_HANDLING_TAGS"
    and "pre_lines_to_translate
           (pre_scan_lines (split_lines (get_text (Tag name attrs children)))) = []"
  shows "process_special tr (Tag name attrs children)
         = Inr (Tag name attrs [NavigableString (get_text (Tag name attrs children))])"
  using assms process_special_text_noop [OF assms(2)] by simp

lemma process_special_noop:
  "special_plain n \<Longrightarrow> special_segments n = [] \<Longrightarrow> process_special tr n = Inr n"
proof (induction n)
  case (NavigableString s)
  show ?case by simp
next
  case (SpecialString cls s)
  show ?case by simp
next
  case (Tag name attrs children)
  show ?case
  proof (cases "name \<in> set SPECIAL_HANDLING_TAGS")
    case True
    with Tag.prems(1) obtain s where c: "children = [NavigableString s]"
      by (auto split: list.splits node.splits)
    from Tag.prems(2) True c
    have "pre_lines_to_translate (pre_scan_lines (split_lines s)) = []" by simp
    then show ?thesis using True c by (simp add: process_special_text_noop)
  next
    case False
    have "those_inr (map (process_special tr) children) = Inr children"
    proof (rule those_inr_id)
      fix c assume c: "c \<in> set children"
      with Tag.prems False have "special_plain c" "special_segments c = []"
        by (auto simp: list_all_iff)
      with Tag.IH c show "process_special tr c = Inr c" by simp
    qed
    then show ?thesis using False by simp
  qed
qed

lemma process_special_fixed: "process_special tr n = Inr n \<Longrightarrow> special_plain n"
proof (induction n)
  case (NavigableString s)
  show ?case by simp
next
  case (SpecialString cls s)
  show ?case by simp
next
  case (Tag name attrs children)
  show ?case
  proof (cases "name \<in> set SPECIAL_HANDLING_TAGS")
    case True
    with Tag.prems show ?thesis by (auto split: sum.splits)
  next
    case False
    with Tag.prems have "those_inr (map (process_special tr) children) = Inr children"
      by (auto split: sum.splits)
    then have "map (process_special tr) children = map Inr children"
      by (rule those_inr_Inr)
    then have "process_special tr c = Inr c" if "c \<in> set children" for c
      using that by (simp add: map_eq_conv)
    with Tag.IH have "special_plain c" if "c \<in> set children" for c
      using that by blast
    with False show ?thesis by (simp add: list_all_iff)
  qed
qed

lemma translate_element_noop:
  "walk_segments parent_name n = [] \<Longrightarrow> translate_element tr parent_name n = n"
proof (induction n arbitrary: parent_name)
  case (NavigableString s)
  then show ?case by (auto split: if_splits)
next
  case (SpecialString cls s)
  then show ?case by (auto split: if_splits)
next
  case (Tag name attrs children)
  show ?case
  proof (cases "name \<in> set EXCLUDE_TAGS \<or> name \<in> set SPECIAL_HANDLING_TAGS")
    case True
    then show ?thesis by simp
  next
    case False
    have "map (translate_element tr name) children = children"
    proof (rule map_idI)
      fix c assume c: "c \<in> set children"
      with Tag.prems False have "walk_segments name c = []" by auto
      with Tag.IH c show "translate_element tr name c = c" by simp
    qed
    then show ?thesis using False by simp
  qed
qed

lemma on_first_id:
  "(case find_first nm parent_name ns of
      None \<Rightarrow> True
    | Some found \<Rightarrow> f (fst found) (snd found) = snd found)
   \<Longrightarrow> on_first nm f parent_name ns
       = (case find_first nm parent_name ns of None \<Rightarrow> None | Some found \<Rightarrow> Some ns)"
proof (induction nm f parent_name ns rule: on_first.induct)
  case (1 nm f parent_name)
  show ?case by simp
next
  case (2 nm f parent_name s ns)
  then show ?case by (auto split: option.splits)
next
  case (3 nm f parent_name cls s ns)
  then show ?case by (auto split: option.splits)
next
  case (4 nm f parent_name name attrs children ns)
  show ?case
  proof (cases "name = nm")
    case True
    with 4 show ?thesis by simp
  next
    case False
    show ?thesis
    proof (cases "find_first nm name children")
      case None
      with 4 False show ?thesis by (auto split: option.splits)
    next
      case (Some found)
      with 4 False show ?thesis by (auto split: option.splits)
    qed
  qed
qed

lemma html_walk_noop:
  assumes "html_segments tr soup = []"
  shows "html_process_file tr soup = process_special tr soup"
proof (cases "process_special tr soup")
  case (Inl e)
  then show ?thesis by (simp add: html_process_file_def)
next
  case (Inr n')
  show ?thesis
  proof (cases n')
    case (NavigableString s)
    with Inr show ?thesis by (simp add: html_process_file_def)
  next
    case (SpecialString cls s)
    with Inr show ?thesis by (simp add: html_process_file_def)
  next
    case (Tag name attrs children)
    from assms Inr Tag
    have w: "(case find_first ''body'' name children of
               Some found \<Rightarrow> walk_segments (fst found) (snd found)
             | None \<Rightarrow> []) = []"
      by (simp add: html_segments_def)
    have "(case find_first ''body'' name children of
             None \<Rightarrow> True
           | Some found \<Rightarrow> translate_element tr (fst found) (snd found) = snd found)"
      using w by (auto split: option.splits intro: translate_element_noop)
    from on_first_id [OF this] Inr Tag show ?thesis
      by (auto simp: html_process_file_def split: option.splits)
  qed
qed

lemma html_noop_iff:
  assumes "html_segments tr soup = []"
  shows "html_process_file tr soup = Inr soup \<longleftrightarrow> special_plain soup"
proof
  assume "html_process_file tr soup = Inr soup"
  with html_walk_noop [OF assms] have "process_special tr soup = Inr soup" by simp
  then show "special_plain soup" by (rule process_special_fixed)
next
  assume sp: "special_plain soup"
  from assms have "special_segments soup = []" by (simp add: html_segments_def)
  with sp have "process_special tr soup = Inr soup" by (rule process_special_noop)
  with html_walk_noop [OF assms] show "html_process_file tr soup = Inr soup" by simp
qed

text \<open>
  Claim C2, as stated, does not hold in the markup driver: a special element that
  holds markup is given the text of its content as its only child, also where no text at
  all is sent to the translation service, so the tree that is written differs from the
  tree that was read.
\<close>

theorem html_noop_counterexample:
  "html_segments uppercase
     (Tag ''[document]'' [] [Tag ''pre'' [] [Tag ''b'' [] [NavigableString ''x'']]]) = []
   \<and> html_process_file uppercase
       (Tag ''[document]'' [] [Tag ''pre'' [] [Tag ''b'' [] [NavigableString ''x'']]])
     = Inr (Tag ''[document]'' [] [Tag ''pre'' [] [NavigableString ''x'']])
   \<and> html_process_file uppercase
       (Tag ''[document]'' [] [Tag ''pre'' [] [Tag ''b'' [] [NavigableString ''x'']]])
     \<noteq> Inr (Tag ''[document]'' [] [Tag ''pre'' [] [Tag ''b'' [] [NavigableString ''x'']]])"
  by (simp add: html_segments_def html_process_file_def EXCLUDE_TAGS_def
      SPECIAL_HANDLING_TAGS_def process_special_text_def pre_scan_lines_def pre_scan_line_def
      pre_scan_init_def enumerate_eq_zip Let_def string_prims)

text \<open>
  Claim C2, amended. A document none of whose segments is sent to the translation
  service is written as it was read (the text as decoded) in the C-family, the
  lightweight-markup and the typesetting driver, where the segments that are sent are
  the comments, lines and queued texts with an alphanumeric character. In the markup
  driver such a document is written as the tree that was parsed if and only if every
  special element that stands in no other one holds one text node of the class
  \<open>NavigableString\<close> itself and nothing else: the first loop gives every such
  element one text node for its children, whatever it held and whether or not there is
  a segment to translate, and where the element has no comment line to translate, that
  node holds the text \<open>get_text()\<close> of the element, so nested markup is flattened
  and comments are dropped.
\<close>

theorem noop_without_translatable_segments:
  "(filter has_alnum (matches (re_scan comment_match c1)) = []
      \<longrightarrow> cpp_process_file tr c1 = c1)
   \<and> (filter has_alnum (md_tasks (md_scan_lines (readlines c2))) = []
      \<longrightarrow> md_process_file compile_template tr c2 = c2)
   \<and> (filter has_alnum (tex_lines_to_translate (tex_scan_lines (readlines c3))) = []
      \<longrightarrow> tex_process_file tr c3 = c3)
   \<and> (html_segments tr soup = []
      \<longrightarrow> (html_process_file tr soup = Inr soup \<longleftrightarrow> special_plain soup))
   \<and> (name \<in> set SPECIAL_HANDLING_TAGS
      \<longrightarrow> (\<exists>s. process_special tr (Tag name attrs children)
                 = Inr (Tag name attrs [NavigableString s])))
   \<and> (name \<in> set SPECIAL_HANDLING_TAGS
       \<and> pre_lines_to_translate
           (pre_scan_lines (split_lines (get_text (Tag name attrs children)))) = []
      \<longrightarrow> process_special tr (Tag name attrs children)
           = Inr (Tag name attrs [NavigableString (get_text (Tag name attrs children))]))"
proof -
  have a: "cpp_process_file tr c1 = c1"
    if "filter has_alnum (matches (re_scan comment_match c1)) = []"
    using that by (rule cpp_noop)
  have b: "md_process_file compile_template tr c2 = c2"
    if "filter has_alnum (md_tasks (md_scan_lines (readlines c2))) = []"
    using md_noop [OF that] by (simp add: md_process_file_def concat_readlines)
  have c: "tex_process_file tr c3 = c3"
    if "filter has_alnum (tex_lines_to_translate (tex_scan_lines (readlines c3))) = []"
    using tex_noop [OF that] by (simp add: tex_process_file_def concat_readlines)
  have d: "html_process_file tr soup = Inr soup \<longleftrightarrow> special_plain soup"
    if "html_segments tr soup = []"
    using that by (rule html_noop_iff)
  have e: "\<exists>s. process_special tr (Tag name attrs children)
               = Inr (Tag name attrs [NavigableString s])"
    if "name \<in> set SPECIAL_HANDLING_TAGS"
    using that by (rule process_special_flat)
  have f: "process_special tr (Tag name attrs children)
           = Inr (Tag name attrs [NavigableString (get_text (Tag name attrs children))])"
    if "name \<in> set SPECIAL_HANDLING_TAGS
       \<and> pre_lines_to_translate
           (pre_scan_lines (split_lines (get_text (Tag name attrs children)))) = []"
    using that process_special_flat_text by blast
  from a b c d e f show ?thesis by blast
qed

theorem noop_without_translatable_segments_witness:
  "filter has_alnum (matches (re_scan comment_match (''x; // ---'' @ [newline]))) = []
   \<and> cpp_process_file uppercase (''x; // ---'' @ [newline]) = ''x; // ---'' @ [newline]
   \<and> filter has_alnum (md_tasks (md_scan_lines (readlines (''---'' @ [newline, newline])))) = []
   \<and> md_process_file no_escapes uppercase (''---'' @ [newline, newline])
       = ''---'' @ [newline, newline]
   \<and> filter has_alnum
       (tex_lines_to_translate (tex_scan_lines (readlines (item_command @ '' ---'' @ [newline]))))
       = []
   \<and> tex_process_file uppercase (item_command @ '' ---'' @ [newline])
       = item_command @ '' ---'' @ [newline]
   \<and> html_segments uppercase
       (Tag ''[document]'' []
          [Tag ''body'' [] [Tag ''a'' [] [NavigableString ''link''],
                            Tag ''pre'' [] [NavigableString ''x = 1;'']]]) = []
   \<and> special_plain
       (Tag ''[document]'' []
          [Tag ''body'' [] [Tag ''a'' [] [NavigableString ''link''],
                            Tag ''pre'' [] [NavigableString ''x = 1;'']]])
   \<and> html_process_file uppercase
       (Tag ''[document]'' []
          [Tag ''body'' [] [Tag ''a'' [] [NavigableString ''link''],
                            Tag ''pre'' [] [NavigableString ''x = 1;'']]])
     = Inr (Tag ''[document]'' []
          [Tag ''body'' [] [Tag ''a'' [] [NavigableString ''link''],
                            Tag ''pre'' [] [NavigableString ''x = 1;'']]])
   \<and> html_segments uppercase
       (Tag ''[document]'' [] [Tag ''pre'' [] [SpecialString Comment ''c'']]) = []
   \<and> \<not> special_plain (Tag ''[document]'' [] [Tag ''pre'' [] [SpecialString Comment ''c'']])
   \<and> html_process_file uppercase
       (Tag ''[document]'' [] [Tag ''pre'' [] [SpecialString Comment ''c'']])
     \<noteq> Inr (Tag ''[document]'' [] [Tag ''pre'' [] [SpecialString Comment ''c'']])
   \<and> ''pre'' \<in> set SPECIAL_HANDLING_TAGS
   \<and> process_special uppercase
       (Tag ''pre'' [] [SpecialString Comment ''c'', Tag ''b'' [] [NavigableString ''x'']])
     = Inr (Tag ''pre'' [] [NavigableString ''x''])"
proof -
  let ?c1 = "''x; // ---'' @ [newline]"
  let ?c2 = "''---'' @ [newline, newline]"
  let ?c3 = "item_command @ '' ---'' @ [newline]"
  let ?soup = "Tag ''[document]'' []
          [Tag ''body'' [] [Tag ''a'' [] [NavigableString ''link''],
                            Tag ''pre'' [] [NavigableString ''x = 1;'']]]"
  let ?soup2 = "Tag ''[document]'' [] [Tag ''pre'' [] [SpecialString Comment ''c'']]"
  let ?children = "[SpecialString Comment ''c'', Tag ''b'' [] [NavigableString ''x'']]"
  have h1: "filter has_alnum (matches (re_scan comment_match ?c1)) = []"
    by (simp add: comment_match_def string_prims)
  have h2: "filter has_alnum (md_tasks (md_scan_lines (readlines ?c2))) = []"
    by (simp add: md_scan_lines_def md_scan_line_def md_scan_init_def is_fence_def
        CODE_BLOCK_MARKER_def line_ends_def enumerate_eq_zip Let_def eval_nat_numeral
        string_prims)
  have h3: "filter has_alnum (tex_lines_to_translate (tex_scan_lines (readlines ?c3))) = []"
    by (simp add: tex_scan_lines_def tex_scan_line_def tex_scan_init_def item_match_def
        item_sub_def item_command_def enumerate_eq_zip Let_def string_prims)
  have h4: "html_segments uppercase ?soup = []"
    by (simp add: html_segments_def EXCLUDE_TAGS_def SPECIAL_HANDLING_TAGS_def
        process_special_text_def pre_scan_lines_def pre_scan_line_def pre_scan_init_def
        enumerate_eq_zip Let_def string_prims)
  have h5: "special_plain ?soup"
    by (simp add: SPECIAL_HANDLING_TAGS_def)
  have h6: "html_segments uppercase ?soup2 = []"
    by (simp add: html_segments_def EXCLUDE_TAGS_def SPECIAL_HANDLING_TAGS_def
        process_special_text_def pre_scan_lines_def pre_scan_line_def pre_scan_init_def
        enumerate_eq_zip Let_def string_prims)
  have h7: "\<not> special_plain ?soup2"
    by (simp add: SPECIAL_HANDLING_TAGS_def)
  have h8: "''pre'' \<in> set SPECIAL_HANDLING_TAGS"
    by (simp add: SPECIAL_HANDLING_TAGS_def)
  have h9: "pre_lines_to_translate
              (pre_scan_lines (split_lines (get_text (Tag ''pre'' [] ?children)))) = []"
    by (simp add: pre_scan_lines_def pre_scan_line_def pre_scan_init_def
        enumerate_eq_zip Let_def string_prims)
  note t = noop_without_translatable_segments [of ?c1 uppercase ?c2 no_escapes ?c3 ?soup]
  note t2 = noop_without_translatable_segments
    [of ?c1 uppercase ?c2 no_escapes ?c3 ?soup2 "''pre''" "[]" ?children]
  from t h1 have r1: "cpp_process_file uppercase ?c1 = ?c1" by blast
  from t h2 have r2: "md_process_file no_escapes uppercase ?c2 = ?c2" by blast
  from t h3 have r3: "tex_process_file uppercase ?c3 = ?c3" by blast
  from t h4 h5 have r4: "html_process_file uppercase ?soup = Inr ?soup" by blast
  from t2 h6 h7 have r5: "html_process_file uppercase ?soup2 \<noteq> Inr ?soup2" by blast
  from t2 h8 h9 have "process_special uppercase (Tag ''pre'' [] ?children)
      = Inr (Tag ''pre'' [] [NavigableString (get_text (Tag ''pre'' [] ?children))])" by blast
  then have r6: "process_special uppercase (Tag ''pre'' [] ?children)
      = Inr (Tag ''pre'' [] [NavigableString ''x''])" by simp
  from h1 r1 h2 r2 h3 r3 h4 h5 r4 h6 h7 r5 h8 r6 show ?thesis by blast
qed

section \<open>The bound on outstanding calls\<close>

lemma filter_update_count:
  "i < length ts
   \<Longrightarrow> length (filter P (ts[i := x])) + (if P (ts ! i) then 1 else 0)
       = length (filter P ts) + (if P x then 1 else 0)"
proof (induction ts arbitrary: i)
  case Nil
  then show ?case by simp
next
  case (Cons t ts)
  show ?case
  proof (cases i)
    case 0
    then show ?thesis by simp
  next
    case (Suc k)
    with Cons.prems have "k < length ts" by simp
    from Cons.IH [OF this] Suc show ?thesis by simp
  qed
qed

lemma step_keeps_slots:
  assumes "step d d'"
  shows "sem_value d' + slots_taken d' = sem_value d + slots_taken d"
  using assms
proof cases
  case spawn
  then show ?thesis by (simp add: slots_taken_def in_slot_def)
next
  case (fast_return i)
  with filter_update_count [of i "tasks d" in_slot Returned]
  show ?thesis by (simp add: slots_taken_def in_slot_def)
next
  case (acquire i)
  with filter_update_count [of i "tasks d" in_slot Holding]
  show ?thesis by (simp add: slots_taken_def in_slot_def)
next
  case (early_return i)
  with filter_update_count [of i "tasks d" in_slot Returned]
  show ?thesis by (simp add: slots_taken_def in_slot_def)
next
  case (call i)
  with filter_update_count [of i "tasks d" in_slot Calling]
  show ?thesis by (simp add: slots_taken_def in_slot_def)
next
  case (finish i)
  with filter_update_count [of i "tasks d" in_slot Returned]
  show ?thesis by (simp add: slots_taken_def in_slot_def)
qed

lemma reachable_slots: "reachable n d \<Longrightarrow> sem_value d + slots_taken d = n"
proof (induction rule: reachable.induct)
  case (start n)
  show ?case by (simp add: dispatcher_init_def slots_taken_def)
next
  case (next_step n d d')
  with step_keeps_slots [of d d'] show ?case by simp
qed

lemma outstanding_le_slots: "outstanding d \<le> slots_taken d"
proof -
  have "length (filter (\<lambda>t. t = Calling) ts) \<le> length (filter in_slot ts)" for ts
    by (induction ts) (auto simp: in_slot_def)
  then show ?thesis by (simp add: outstanding_def slots_taken_def)
qed

text \<open>
  Claim C9. In every state that a run can reach, the number of outstanding calls of the
  translation service is at most the number of slots the semaphore was created with,
  the tasks of all files counted together: the free slots and the tasks inside the block
  always add up to that number.
\<close>

theorem outstanding_calls_bounded:
  assumes "reachable n d"
  shows "outstanding d \<le> n \<and> sem_value d + slots_taken d = n"
  using reachable_slots [OF assms] outstanding_le_slots [of d] by simp

theorem outstanding_calls_bounded_witness:
  "reachable 1 \<lparr>sem_value = 0, tasks = [Calling, Created]\<rparr>
   \<and> outstanding \<lparr>sem_value = 0, tasks = [Calling, Created]\<rparr> \<le> 1
   \<and> \<not> step \<lparr>sem_value = 0, tasks = [Calling, Created]\<rparr>
            \<lparr>sem_value = 0, tasks = [Calling, Calling]\<rparr>"
proof -
  have r0: "reachable 1 \<lparr>sem_value = 1, tasks = []\<rparr>"
    using reachable.start [of 1] by (simp add: dispatcher_init_def)
  have "step \<lparr>sem_value = 1, tasks = []\<rparr> \<lparr>sem_value = 1, tasks = [Created]\<rparr>"
    using step.spawn [of "\<lparr>sem_value = 1, tasks = []\<rparr>"] by simp
  with r0 have r1: "reachable 1 \<lparr>sem_value = 1, tasks = [Created]\<rparr>"
    by (rule reachable.next_step)
  have "step \<lparr>sem_value = 1, tasks = [Created]\<rparr> \<lparr>sem_value = 1, tasks = [Created, Created]\<rparr>"
    using step.spawn [of "\<lparr>sem_value = 1, tasks = [Created]\<rparr>"] by simp
  with r1 have r2: "reachable 1 \<lparr>sem_value = 1, tasks = [Created, Created]\<rparr>"
    by (rule reachable.next_step)
  have "step \<lparr>sem_value = 1, tasks = [Created, Created]\<rparr>
             \<lparr>sem_value = 0, tasks = [Holding, Created]\<rparr>"
    using step.acquire [of 0 "\<lparr>sem_value = 1, tasks = [Created, Created]\<rparr>"] by simp
  with r2 have r3: "reachable 1 \<lparr>sem_value = 0, tasks = [Holding, Created]\<rparr>"
    by (rule reachable.next_step)
  have "step \<lparr>sem_value = 0, tasks = [Holding, Created]\<rparr>
             \<lparr>sem_value = 0, tasks = [Calling, Created]\<rparr>"
    using step.call [of 0 "\<lparr>sem_value = 0, tasks = [Holding, Created]\<rparr>"] by simp
  with r3 have r4: "reachable 1 \<lparr>sem_value = 0, tasks = [Calling, Created]\<rparr>"
    by (rule reachable.next_step)
  from outstanding_calls_bounded [OF r4]
  have b: "outstanding \<lparr>sem_value = 0, tasks = [Calling, Created]\<rparr> \<le> 1" by simp
  have n: "\<not> step \<lparr>sem_value = 0, tasks = [Calling, Created]\<rparr>
            \<lparr>sem_value = 0, tasks = [Calling, Calling]\<rparr>"
  proof
    assume "step \<lparr>sem_value = 0, tasks = [Calling, Created]\<rparr>
            \<lparr>sem_value = 0, tasks = [Calling, Calling]\<rparr>"
    then show False
      by cases (auto simp: list_update_code nth_Cons' split: if_splits nat.splits)
  qed
  from r4 b n show ?thesis by blast
qed


end
